theory Spec2Isabelle
  imports Complex_Main "HOL-Library.Sublist"
begin

section \<open>JavaScript strings\<close>

text \<open>
  A JavaScript string is a sequence of code units. The model uses \<^typ>\<open>string\<close>, so it
  covers the texts whose code units are below 256; every pattern of the program only
  inspects ASCII characters and white space.

  \<open>is_space\<close> is the white space of \<^verbatim>\<open>String.prototype.trim\<close> and of the class
  \<^verbatim>\<open>\s\<close> in that range: TAB, LF, VT, FF, CR, SPACE and NBSP.
\<close>

definition is_space :: "char \<Rightarrow> bool" where
  "is_space c = (c \<in> {CHR 0x09, CHR 0x0A, CHR 0x0B, CHR 0x0C, CHR 0x0D, CHR 0x20, CHR 0xA0})"

definition is_digit :: "char \<Rightarrow> bool" where
  "is_digit c = (c \<in> set ''0123456789'')"

text \<open>The class \<^verbatim>\<open>\w\<close>: ASCII letters, digits and the underscore.\<close>

definition is_word :: "char \<Rightarrow> bool" where
  "is_word c = (c \<in> set ''abcdefghijklmnopqrstuvwxyzABCDEFGHIJKLMNOPQRSTUVWXYZ0123456789_'')"

definition trim :: "string \<Rightarrow> string" where
  "trim s = rev (dropWhile is_space (rev (dropWhile is_space s)))"

text \<open>\<^verbatim>\<open>s.split(c)\<close> for a separator of one character: never the empty list.\<close>

fun split_on :: "char \<Rightarrow> string \<Rightarrow> string list" where
  "split_on c [] = [[]]"
| "split_on c (x # xs) =
     (if x = c then [] # split_on c xs
      else (case split_on c xs of y # ys \<Rightarrow> (x # y) # ys | [] \<Rightarrow> [[x]]))"

text \<open>\<^verbatim>\<open>xs.join(sep)\<close>.\<close>

fun join :: "string \<Rightarrow> string list \<Rightarrow> string" where
  "join sep [] = []"
| "join sep [x] = x"
| "join sep (x # y # ys) = x @ sep @ join sep (y # ys)"

text \<open>
  \<^verbatim>\<open>m.slice(k, -1)\<close>: the code units from index \<open>k\<close> up to, and without, the last
  one; empty when \<open>m\<close> has at most \<open>k\<close> code units.
\<close>

definition slice_to_last :: "nat \<Rightarrow> string \<Rightarrow> string" where
  "slice_to_last k m = butlast (drop k m)"

section \<open>Regular expressions\<close>

text \<open>
  The fragment of the regular expressions that the program uses: a character class,
  a greedy quantifier on a character class (\<^verbatim>\<open>+\<close> is \<open>Rep p 1 None\<close>, \<^verbatim>\<open>{m}\<close> is
  \<open>Rep p m (Some m)\<close>, \<^verbatim>\<open>{m,n}\<close> is \<open>Rep p m (Some n)\<close>), the word boundary
  \<^verbatim>\<open>\b\<close>, sequence and alternative. Capture groups only group here: the program never
  reads a capture.

  A matcher state is the code unit before the position (for \<^verbatim>\<open>\b\<close>) and the rest of
  the input. \<open>rx_match\<close> lists the states in which a match of the expression can end,
  in the order in which a backtracking matcher tries them; the head is the match that
  the engine reports.
\<close>

datatype rx =
    Eps
  | Sym "char \<Rightarrow> bool"
  | Rep "char \<Rightarrow> bool" nat "nat option"
  | WordB
  | Seq rx rx
  | Alt rx rx

type_synonym rx_state = "char option \<times> string"

fun rep :: "(char \<Rightarrow> bool) \<Rightarrow> nat \<Rightarrow> nat option \<Rightarrow> char option \<Rightarrow> string \<Rightarrow> rx_state list" where
  "rep p m n prev [] = (if m = 0 then [(prev, [])] else [])"
| "rep p m n prev (c # cs) =
     (if p c \<and> n \<noteq> Some 0 then rep p (m - 1) (map_option (\<lambda>k. k - 1) n) (Some c) cs else [])
     @ (if m = 0 then [(prev, c # cs)] else [])"

definition word_opt :: "char option \<Rightarrow> bool" where
  "word_opt x = (case x of None \<Rightarrow> False | Some c \<Rightarrow> is_word c)"

definition next_char :: "string \<Rightarrow> char option" where
  "next_char s = (case s of [] \<Rightarrow> None | c # _ \<Rightarrow> Some c)"

fun rx_match :: "rx \<Rightarrow> rx_state \<Rightarrow> rx_state list" where
  "rx_match Eps st = [st]"
| "rx_match (Sym p) (prev, s) =
     (case s of [] \<Rightarrow> [] | c # cs \<Rightarrow> if p c then [(Some c, cs)] else [])"
| "rx_match (Rep p m n) (prev, s) = rep p m n prev s"
| "rx_match WordB (prev, s) =
     (if word_opt prev \<noteq> word_opt (next_char s) then [(prev, s)] else [])"
| "rx_match (Seq a b) st = concat (map (rx_match b) (rx_match a st))"
| "rx_match (Alt a b) st = rx_match a st @ rx_match b st"

text \<open>A literal, and a literal under the flag \<^verbatim>\<open>i\<close> (for ASCII letters, either case).\<close>

fun lit :: "string \<Rightarrow> rx" where
  "lit [] = Eps"
| "lit [c] = Sym ((=) c)"
| "lit (c # cs) = Seq (Sym ((=) c)) (lit cs)"

definition same_letter :: "char \<Rightarrow> char \<Rightarrow> bool" where
  "same_letter a b =
     (a = b \<or> (a, b) \<in> set (zip ''abcdefghijklmnopqrstuvwxyz'' ''ABCDEFGHIJKLMNOPQRSTUVWXYZ'')
            \<or> (b, a) \<in> set (zip ''abcdefghijklmnopqrstuvwxyz'' ''ABCDEFGHIJKLMNOPQRSTUVWXYZ''))"

fun lit_i :: "string \<Rightarrow> rx" where
  "lit_i [] = Eps"
| "lit_i [c] = Sym (same_letter c)"
| "lit_i (c # cs) = Seq (Sym (same_letter c)) (lit_i cs)"

text \<open>
  \<^verbatim>\<open>re.test(s)\<close> for an expression without the flag \<^verbatim>\<open>g\<close>: is there a match at
  some position, the end of the input included.
\<close>

fun rx_test_from :: "rx \<Rightarrow> char option \<Rightarrow> string \<Rightarrow> bool" where
  "rx_test_from r prev [] = (rx_match r (prev, []) \<noteq> [])"
| "rx_test_from r prev (c # cs) = (rx_match r (prev, c # cs) \<noteq> [] \<or> rx_test_from r (Some c) cs)"

definition rx_test :: "rx \<Rightarrow> string \<Rightarrow> bool" where
  "rx_test r s = rx_test_from r None s"

text \<open>
  The scan behind \<^verbatim>\<open>s.match(re)\<close> and \<^verbatim>\<open>s.replace(re, ...)\<close> under the flag
  \<^verbatim>\<open>g\<close>: from left to right, the first match at the earliest position, then on from
  its end; a position without a match keeps its code unit, and after an empty match the
  scan moves on by one code unit.
\<close>

datatype piece = Keep char | Hit string

function rx_scan :: "rx \<Rightarrow> char option \<Rightarrow> string \<Rightarrow> piece list" where
  "rx_scan r prev [] = (if rx_match r (prev, []) = [] then [] else [Hit []])"
| "rx_scan r prev (c # cs) =
     (if rx_match r (prev, c # cs) = [] then Keep c # rx_scan r (Some c) cs
      else if length (snd (hd (rx_match r (prev, c # cs)))) < Suc (length cs)
      then Hit (take (Suc (length cs) - length (snd (hd (rx_match r (prev, c # cs))))) (c # cs))
           # rx_scan r (fst (hd (rx_match r (prev, c # cs)))) (snd (hd (rx_match r (prev, c # cs))))
      else Hit [] # Keep c # rx_scan r (Some c) cs)"
  by pat_completeness auto
termination
  by (relation "measure (\<lambda>(r, prev, s). length s)") (auto simp: case_prod_beta)

text \<open>
  \<^verbatim>\<open>s.match(re)\<close> gives the matched substrings, and \<^verbatim>\<open>null\<close> when there is none:
  the empty list stands for \<^verbatim>\<open>null\<close>. \<^verbatim>\<open>s.replace(re, "")\<close> drops them.
\<close>

fun hits :: "piece list \<Rightarrow> string list" where
  "hits [] = []"
| "hits (Keep c # ps) = hits ps"
| "hits (Hit m # ps) = m # hits ps"

fun kept :: "piece list \<Rightarrow> string" where
  "kept [] = []"
| "kept (Keep c # ps) = c # kept ps"
| "kept (Hit m # ps) = kept ps"

definition match_all :: "rx \<Rightarrow> string \<Rightarrow> string list" where
  "match_all r s = hits (rx_scan r None s)"

definition remove_all :: "rx \<Rightarrow> string \<Rightarrow> string" where
  "remove_all r s = kept (rx_scan r None s)"

fun seqs :: "rx list \<Rightarrow> rx" where
  "seqs [] = Eps"
| "seqs [r] = r"
| "seqs (r # rs) = Seq r (seqs rs)"

fun alts :: "rx \<Rightarrow> rx list \<Rightarrow> rx" where
  "alts r [] = r"
| "alts r (q # qs) = Alt r (alts q qs)"

section \<open>FileProcessor\<close>

definition NL :: char where
  "NL = CHR 0x0A"

datatype file_kind = Log | Csv | Xlsx | Txt

record Metadata =
  md_size :: nat
  md_lines :: "nat option"
  md_columns :: "string list option"
  md_encoding :: string

text \<open>
  The field \<^verbatim>\<open>structure\<close> has the type \<^verbatim>\<open>any\<close>; one constructor for each object
  that the program stores there. \<open>csv_headers\<close> is \<open>None\<close> where the source has
  \<^verbatim>\<open>undefined\<close>, and \<open>csv_rows\<close> is an integer, since the source subtracts 1 from a
  length.
\<close>

datatype Structure =
    LogStructure (hasTimestamps: bool) (hasLogLevels: bool) (hasIpAddresses: bool) (totalLines: nat)
  | CsvStructure (csv_headers: "string list option") (csv_rows: int) (csv_columns: nat)
      (csv_delimiter: string)
  | XlsxStructure (xlsx_sheets: "string list") (xlsx_format: string)

record ProcessedFileData =
  pf_type :: file_kind
  pf_content :: string
  pf_metadata :: Metadata
  pf_preview :: string
  pf_structure :: "Structure option"

definition processTextFile :: "string \<Rightarrow> nat \<Rightarrow> ProcessedFileData" where
  "processTextFile content sz =
     (let lines = split_on NL content;
          preview = join [NL] (take 10 lines)
      in \<lparr>pf_type = Txt, pf_content = content,
          pf_metadata = \<lparr>md_size = sz, md_lines = Some (length lines), md_columns = None,
                         md_encoding = ''utf-8''\<rparr>,
          pf_preview = preview, pf_structure = None\<rparr>)"

text \<open>
  \<^verbatim>\<open>/\d{4}-\d{2}-\d{2}[\sT]\d{2}:\d{2}:\d{2}/\<close>,
  \<^verbatim>\<open>/\b(ERROR|WARN|INFO|DEBUG|TRACE|FATAL)\b/i\<close> and
  \<^verbatim>\<open>/\b\d{1,3}\.\d{1,3}\.\d{1,3}\.\d{1,3}\b/\<close>.
\<close>

definition timestamp_re :: rx where
  "timestamp_re = seqs
     [Rep is_digit 4 (Some 4), Sym ((=) CHR ''-''), Rep is_digit 2 (Some 2), Sym ((=) CHR ''-''),
      Rep is_digit 2 (Some 2), Sym (\<lambda>c. is_space c \<or> c = CHR ''T''),
      Rep is_digit 2 (Some 2), Sym ((=) CHR '':''), Rep is_digit 2 (Some 2), Sym ((=) CHR '':''),
      Rep is_digit 2 (Some 2)]"

definition level_re :: rx where
  "level_re = seqs
     [WordB,
      alts (lit_i ''ERROR'') [lit_i ''WARN'', lit_i ''INFO'', lit_i ''DEBUG'', lit_i ''TRACE'',
        lit_i ''FATAL''],
      WordB]"

definition ip_re :: rx where
  "ip_re = seqs
     [WordB, Rep is_digit 1 (Some 3), Sym ((=) CHR ''.''), Rep is_digit 1 (Some 3),
      Sym ((=) CHR ''.''), Rep is_digit 1 (Some 3), Sym ((=) CHR ''.''), Rep is_digit 1 (Some 3),
      WordB]"

text \<open>
  \<^verbatim>\<open>filter((line) => line.trim())\<close> keeps the lines whose trimmed text is not empty.
\<close>

definition nonblank_lines :: "string \<Rightarrow> string list" where
  "nonblank_lines content = filter (\<lambda>line. trim line \<noteq> []) (split_on NL content)"

definition processLogFile :: "string \<Rightarrow> nat \<Rightarrow> ProcessedFileData" where
  "processLogFile content sz =
     (let lines = nonblank_lines content;
          preview = join [NL] (take 10 lines);
          structure = LogStructure (rx_test timestamp_re content) (rx_test level_re content)
                        (rx_test ip_re content) (length lines)
      in \<lparr>pf_type = Log, pf_content = content,
          pf_metadata = \<lparr>md_size = sz, md_lines = Some (length lines), md_columns = None,
                         md_encoding = ''utf-8''\<rparr>,
          pf_preview = preview, pf_structure = Some structure\<rparr>)"

text \<open>
  \<^verbatim>\<open>lines[0]?.split(",").map((h) => h.trim().replace(/"/g, ""))\<close>: undefined when
  there is no line; \<^verbatim>\<open>headers?.length || 0\<close> is then 0.
\<close>

definition header_cell :: "string \<Rightarrow> string" where
  "header_cell h = remove_all (Sym ((=) CHR 0x22)) (trim h)"

definition processCsvFile :: "string \<Rightarrow> nat \<Rightarrow> ProcessedFileData" where
  "processCsvFile content sz =
     (let lines = nonblank_lines content;
          headers = (case lines of [] \<Rightarrow> None
                     | l # _ \<Rightarrow> Some (map header_cell (split_on CHR '','' l)));
          preview = join [NL] (take 6 lines);
          structure = CsvStructure headers (int (length lines) - 1)
                        (case headers of None \<Rightarrow> 0 | Some hs \<Rightarrow> length hs) '',''
      in \<lparr>pf_type = Csv, pf_content = content,
          pf_metadata = \<lparr>md_size = sz, md_lines = Some (length lines), md_columns = headers,
                         md_encoding = ''utf-8''\<rparr>,
          pf_preview = preview, pf_structure = Some structure\<rparr>)"

definition processExcelFile :: "string \<Rightarrow> nat \<Rightarrow> ProcessedFileData" where
  "processExcelFile filePath sz =
     \<lparr>pf_type = Xlsx, pf_content = ''Excel file content (binary)'',
      pf_metadata = \<lparr>md_size = sz, md_lines = None, md_columns = None,
                     md_encoding = ''binary''\<rparr>,
      pf_preview = ''Excel file processing requires additional libraries. File uploaded successfully.'',
      pf_structure = Some (XlsxStructure [''Sheet1''] ''xlsx'')\<rparr>"

text \<open>
  Every throw of the source is a value: the file system calls fail on a missing file,
  \<open>processFile\<close> on an unknown type, and the generation call for reasons of its own.
  The file system is a map from a path to the text and the size of the file.
\<close>

datatype error = FsError string | UnsupportedFileType string | GenerationFailure

definition processFile :: "(string \<rightharpoonup> string \<times> nat) \<Rightarrow> string \<Rightarrow> string \<Rightarrow> error + ProcessedFileData" where
  "processFile fs filePath fileType =
     (case fs filePath of
        None \<Rightarrow> Inl (FsError filePath)
      | Some (fileContent, fileSize) \<Rightarrow>
          if fileType = ''txt'' then Inr (processTextFile fileContent fileSize)
          else if fileType = ''log'' then Inr (processLogFile fileContent fileSize)
          else if fileType = ''csv'' then Inr (processCsvFile fileContent fileSize)
          else if fileType = ''xlsx'' then Inr (processExcelFile filePath fileSize)
          else Inl (UnsupportedFileType fileType))"

subsection \<open>formatFileSize\<close>

text \<open>
  \<open>FileProcessor.formatFileSize\<close> and \<open>AIAgentManager.formatFileSize\<close> have the same
  body. A byte count is a natural number. The numbers of the source are doubles; the
  model computes \<^verbatim>\<open>Math.log(bytes) / Math.log(k)\<close> and the quotient
  \<^verbatim>\<open>bytes / Math.pow(k, i)\<close> in the reals. The quotient is exact in doubles too, for a
  byte count below \<open>2 ^ 53\<close>, since \<open>k\<close> is a power of two.

  \<open>toFixed2 x\<close> is the number of hundredths that \<^verbatim>\<open>x.toFixed(2)\<close> prints: the integer
  \<open>n\<close> with \<open>n / 100\<close> nearest to \<open>x\<close>, the larger one of two. \<open>show_hundredths n\<close>
  is what \<^verbatim>\<open>Number.parseFloat\<close> of that text gives when \<^verbatim>\<open>+\<close> turns it into a string
  again: the decimal numeral of \<open>n / 100\<close> without the zeros at its end. Reading
  \<^verbatim>\<open>sizes[i]\<close> outside the array gives \<^verbatim>\<open>undefined\<close>, which \<^verbatim>\<open>+\<close> prints by its name.
\<close>

definition sizes :: "string list" where
  "sizes = [''Bytes'', ''KB'', ''MB'', ''GB'']"

definition digit_char :: "nat \<Rightarrow> char" where
  "digit_char d = ''0123456789'' ! d"

function show_nat :: "nat \<Rightarrow> string" where
  "show_nat n = (if n < 10 then [digit_char n] else show_nat (n div 10) @ [digit_char (n mod 10)])"
  by pat_completeness auto
termination
  by (relation "measure id") auto

declare show_nat.simps [simp del]

definition toFixed2 :: "real \<Rightarrow> int" where
  "toFixed2 x = \<lfloor>x * 100 + 1 / 2\<rfloor>"

definition show_hundredths :: "int \<Rightarrow> string" where
  "show_hundredths n =
     (let h = nat n in
      show_nat (h div 100) @
      (if h mod 100 = 0 then []
       else if h mod 10 = 0 then [CHR ''.'', digit_char (h mod 100 div 10)]
       else [CHR ''.'', digit_char (h mod 100 div 10), digit_char (h mod 10)]))"

definition size_index :: "nat \<Rightarrow> int" where
  "size_index bytes = \<lfloor>ln (real bytes) / ln 1024\<rfloor>"

definition formatFileSize :: "nat \<Rightarrow> string" where
  "formatFileSize bytes =
     (if bytes = 0 then ''0 Bytes''
      else (let i = size_index bytes in
        show_hundredths (toFixed2 (real bytes / 1024 powi i)) @ '' '' @
        (if 0 \<le> i \<and> i < int (length sizes) then sizes ! nat i else ''undefined'')))"

section \<open>AIAgentManager\<close>

record Dataset =
  ds_label :: string
  ds_data :: "int list"

record ChartData =
  cd_labels :: "string list"
  cd_datasets :: "Dataset list"

text \<open>
  The configuration object: \<open>cfg_scales_y_beginAtZero\<close> is \<open>None\<close> where the object has
  no key \<^verbatim>\<open>scales\<close>.
\<close>

record ChartConfig =
  cfg_responsive :: bool
  cfg_legend_position :: string
  cfg_title_display :: bool
  cfg_title_text :: string
  cfg_scales_y_beginAtZero :: "bool option"

record VisualizationData =
  viz_type :: string
  viz_chartType :: string
  viz_title :: string
  viz_description :: string
  viz_data :: ChartData
  viz_config :: ChartConfig

record TableData =
  tbl_title :: string
  tbl_description :: string
  tbl_headers :: "string list"
  tbl_rows :: "string list list"

text \<open>
  \<^verbatim>\<open>visualizations\<close> and \<^verbatim>\<open>tables\<close> are optional keys: \<open>None\<close> is the object without
  the key.
\<close>

record AgentResponse =
  content :: string
  visualizations :: "VisualizationData list option"
  tables :: "TableData list option"
  confidence :: real
  sources :: "file_kind list"

definition generateCSVVisualizationData :: "string \<Rightarrow> ProcessedFileData \<Rightarrow> ChartData" where
  "generateCSVVisualizationData chartType pd =
     (if chartType = ''line'' then
        \<lparr>cd_labels = [''Jan'', ''Feb'', ''Mar'', ''Apr'', ''May'', ''Jun''],
         cd_datasets =
           [\<lparr>ds_label = ''Sales'', ds_data = [12000, 19000, 15000, 25000, 22000, 30000]\<rparr>,
            \<lparr>ds_label = ''Profit'', ds_data = [3000, 4500, 3800, 6200, 5500, 7500]\<rparr>]\<rparr>
      else if chartType = ''pie'' then
        \<lparr>cd_labels = [''Product A'', ''Product B'', ''Product C'', ''Product D''],
         cd_datasets = [\<lparr>ds_label = ''Revenue Share'', ds_data = [35, 25, 20, 20]\<rparr>]\<rparr>
      else if chartType = ''area'' then
        \<lparr>cd_labels = [''Q1'', ''Q2'', ''Q3'', ''Q4''],
         cd_datasets =
           [\<lparr>ds_label = ''Revenue'', ds_data = [45000, 52000, 48000, 61000]\<rparr>,
            \<lparr>ds_label = ''Costs'', ds_data = [32000, 38000, 35000, 42000]\<rparr>]\<rparr>
      else
        \<lparr>cd_labels = [''North'', ''South'', ''East'', ''West'', ''Central''],
         cd_datasets = [\<lparr>ds_label = ''Sales'', ds_data = [23000, 18000, 31000, 15000, 27000]\<rparr>]\<rparr>)"

definition generateLogVisualizationData :: "string \<Rightarrow> ProcessedFileData \<Rightarrow> ChartData" where
  "generateLogVisualizationData chartType pd =
     (if chartType = ''pie'' then
        \<lparr>cd_labels = [''ERROR'', ''WARN'', ''INFO'', ''DEBUG''],
         cd_datasets = [\<lparr>ds_label = ''Log Levels'', ds_data = [8, 15, 62, 15]\<rparr>]\<rparr>
      else if chartType = ''line'' then
        \<lparr>cd_labels = [''00:00'', ''04:00'', ''08:00'', ''12:00'', ''16:00'', ''20:00''],
         cd_datasets =
           [\<lparr>ds_label = ''Error Count'', ds_data = [2, 1, 8, 12, 15, 6]\<rparr>,
            \<lparr>ds_label = ''Warning Count'', ds_data = [5, 3, 12, 18, 22, 10]\<rparr>]\<rparr>
      else
        \<lparr>cd_labels = [''Authentication'', ''Database'', ''API'', ''Network'', ''System''],
         cd_datasets = [\<lparr>ds_label = ''Error Count'', ds_data = [12, 8, 15, 6, 9]\<rparr>]\<rparr>)"

definition generateDefaultVisualizationData :: "string \<Rightarrow> ChartData" where
  "generateDefaultVisualizationData chartType =
     \<lparr>cd_labels = [''Category A'', ''Category B'', ''Category C'', ''Category D''],
      cd_datasets = [\<lparr>ds_label = ''Sample Data'', ds_data = [30, 45, 25, 35]\<rparr>]\<rparr>"

definition generateVisualizationData :: "string \<Rightarrow> ProcessedFileData option \<Rightarrow> ChartData" where
  "generateVisualizationData chartType processedData =
     (case processedData of
        None \<Rightarrow> generateDefaultVisualizationData chartType
      | Some pd \<Rightarrow>
          (case pf_type pd of
             Csv \<Rightarrow> generateCSVVisualizationData chartType pd
           | Log \<Rightarrow> generateLogVisualizationData chartType pd
           | _ \<Rightarrow> generateDefaultVisualizationData chartType))"

text \<open>The headers and the rows of a table, without its title and description.\<close>

definition generateTableData :: "ProcessedFileData option \<Rightarrow> string list \<times> string list list" where
  "generateTableData processedData =
     (case processedData of
        None \<Rightarrow>
          ([''Item'', ''Value'', ''Status''],
           [[''Sample Item 1'', ''100'', ''Active''],
            [''Sample Item 2'', ''250'', ''Pending''],
            [''Sample Item 3'', ''75'', ''Complete'']])
      | Some pd \<Rightarrow>
          (case pf_type pd of
             Csv \<Rightarrow>
               ([''Product'', ''Sales'', ''Growth'', ''Region''],
                [[''Product A'', ''$45,000'', ''+12%'', ''North''],
                 [''Product B'', ''$32,000'', ''+8%'', ''South''],
                 [''Product C'', ''$58,000'', ''+15%'', ''East''],
                 [''Product D'', ''$41,000'', ''+5%'', ''West''],
                 [''Product E'', ''$37,000'', ''+10%'', ''Central'']])
           | Log \<Rightarrow>
               ([''Timestamp'', ''Level'', ''Component'', ''Message''],
                [[''2024-01-15 10:30:15'', ''ERROR'', ''Database'', ''Connection timeout''],
                 [''2024-01-15 10:30:16'', ''WARN'', ''API'', ''Rate limit approaching''],
                 [''2024-01-15 10:30:17'', ''INFO'', ''Auth'', ''User login successful''],
                 [''2024-01-15 10:30:18'', ''DEBUG'', ''Cache'', ''Cache miss for key: user_123'']])
           | _ \<Rightarrow>
               ([''Key'', ''Value'', ''Type''],
                [[''Total Records'', ''1,234'', ''Count''],
                 [''Average Size'', ''2.5 MB'', ''Size''],
                 [''Processing Time'', ''0.8s'', ''Duration'']])))"

definition generateVisualizationConfig :: "string \<Rightarrow> ChartConfig" where
  "generateVisualizationConfig chartType =
     (let baseConfig = \<lparr>cfg_responsive = True, cfg_legend_position = ''top'',
            cfg_title_display = True, cfg_title_text = ''Data Visualization'',
            cfg_scales_y_beginAtZero = None\<rparr>
      in if chartType = ''line'' \<or> chartType = ''bar'' \<or> chartType = ''area''
         then baseConfig\<lparr>cfg_scales_y_beginAtZero := Some True\<rparr>
         else baseConfig)"

subsection \<open>parseAIResponse\<close>

text \<open>
  The two extraction patterns, \<^verbatim>\<open>/\[VIZ:([^:]+):([^:]+):([^\]]+)\]/g\<close> and
  \<^verbatim>\<open>/\[TABLE:([^:]+):([^\]]+)\]/g\<close>, and the two patterns that clean the text,
  \<^verbatim>\<open>/\[VIZ:[^\]]+\]/g\<close> and \<^verbatim>\<open>/\[TABLE:[^\]]+\]/g\<close>.
\<close>

definition viz_re :: rx where
  "viz_re = seqs
     [lit ''[VIZ:'', Rep (\<lambda>c. c \<noteq> CHR '':'') 1 None, Sym ((=) CHR '':''),
      Rep (\<lambda>c. c \<noteq> CHR '':'') 1 None, Sym ((=) CHR '':''),
      Rep (\<lambda>c. c \<noteq> CHR '']'') 1 None, Sym ((=) CHR '']'')]"

definition table_re :: rx where
  "table_re = seqs
     [lit ''[TABLE:'', Rep (\<lambda>c. c \<noteq> CHR '':'') 1 None, Sym ((=) CHR '':''),
      Rep (\<lambda>c. c \<noteq> CHR '']'') 1 None, Sym ((=) CHR '']'')]"

definition viz_strip_re :: rx where
  "viz_strip_re = seqs [lit ''[VIZ:'', Rep (\<lambda>c. c \<noteq> CHR '']'') 1 None, Sym ((=) CHR '']'')]"

definition table_strip_re :: rx where
  "table_strip_re = seqs [lit ''[TABLE:'', Rep (\<lambda>c. c \<noteq> CHR '']'') 1 None, Sym ((=) CHR '']'')]"

text \<open>The body of each \<^verbatim>\<open>forEach\<close>: what one match appends to the array.\<close>

definition viz_of_match :: "ProcessedFileData option \<Rightarrow> string \<Rightarrow> VisualizationData list" where
  "viz_of_match processedData m =
     (let parts = split_on CHR '':'' (slice_to_last 5 m) in
      if length parts \<ge> 3 then
        (let chartType = parts ! 0 in
         [\<lparr>viz_type = ''chart'', viz_chartType = chartType, viz_title = parts ! 1,
           viz_description = parts ! 2,
           viz_data = generateVisualizationData chartType processedData,
           viz_config = generateVisualizationConfig chartType\<rparr>])
      else [])"

definition table_of_match :: "ProcessedFileData option \<Rightarrow> string \<Rightarrow> TableData list" where
  "table_of_match processedData m =
     (let parts = split_on CHR '':'' (slice_to_last 7 m) in
      if length parts \<ge> 2 then
        [\<lparr>tbl_title = parts ! 0, tbl_description = parts ! 1,
          tbl_headers = fst (generateTableData processedData),
          tbl_rows = snd (generateTableData processedData)\<rparr>]
      else [])"

text \<open>The text without the directives: both replacements, then \<^verbatim>\<open>trim\<close>.\<close>

definition cleanText :: "string \<Rightarrow> string" where
  "cleanText text = trim (remove_all table_strip_re (remove_all viz_strip_re text))"

definition parseAIResponse :: "string \<Rightarrow> ProcessedFileData option \<Rightarrow> AgentResponse" where
  "parseAIResponse text processedData =
     (let vizs = concat (map (viz_of_match processedData) (match_all viz_re text));
          tabs = concat (map (table_of_match processedData) (match_all table_re text));
          cleanedText = cleanText text
      in \<lparr>content = cleanedText, visualizations = Some vizs, tables = Some tabs,
          confidence = 0.85,
          sources = (case processedData of None \<Rightarrow> [] | Some pd \<Rightarrow> [pf_type pd])\<rparr>)"

subsection \<open>processQuery\<close>

record FileRecord =
  file_id :: int
  file_user_id :: int
  filename :: string
  file_path :: string
  file_type :: string
  file_size :: nat
  upload_date :: string

record ChatMessage =
  msg_role :: string
  msg_content :: string

definition buildConversationContext :: "ChatMessage list \<Rightarrow> string" where
  "buildConversationContext history =
     (if length history = 0 then []
      else join [NL]
        (map (\<lambda>msg. (if msg_role msg = ''user'' then ''User'' else ''Assistant'') @ '': '' @
                     msg_content msg)
           (drop (length history - 6) history)))"

definition buildUserPrompt :: "string \<Rightarrow> string \<Rightarrow> string" where
  "buildUserPrompt query conversationContext =
     (if conversationContext \<noteq> [] then
        ''Previous conversation:'' @ [NL] @ conversationContext @ [NL, NL] @
        ''Current question: '' @ query
      else query)"

text \<open>The object that the \<^verbatim>\<open>catch\<close> block returns: it has no visualizations and no tables.\<close>

definition fallback :: AgentResponse where
  "fallback =
     \<lparr>content = ''I apologize, but I encountered an error while processing your request. Please try again.'',
      visualizations = None, tables = None, confidence = 0, sources = []\<rparr>"

text \<open>
  The first step of the \<^verbatim>\<open>try\<close> block. \<^verbatim>\<open>if (fileId)\<close> is false for a missing id and
  for 0. The store and \<open>processFile\<close> can throw.
\<close>

definition loadFile ::
  "(int \<Rightarrow> error + FileRecord option) \<Rightarrow> (string \<rightharpoonup> string \<times> nat) \<Rightarrow> int option \<Rightarrow>
   error + (FileRecord \<times> ProcessedFileData) option" where
  "loadFile getFile fs fileId =
     (case fileId of
        None \<Rightarrow> Inr None
      | Some fid \<Rightarrow>
          if fid = 0 then Inr None
          else (case getFile fid of
                  Inl e \<Rightarrow> Inl e
                | Inr None \<Rightarrow> Inr None
                | Inr (Some file) \<Rightarrow>
                    (case processFile fs (file_path file) (file_type file) of
                       Inl e \<Rightarrow> Inl e
                     | Inr processedData \<Rightarrow> Inr (Some (file, processedData)))))"

text \<open>
  The generation call is a collaborator: it answers a text or throws. The system prompt
  that it receives is built from the file record and the processed file alone
  (\<^verbatim>\<open>buildFileContext\<close>, \<^verbatim>\<open>buildSystemPrompt\<close>), so the model hands it those two in
  place of the prompt text, and the user prompt as it is.
\<close>

definition processQuery ::
  "(int \<Rightarrow> error + FileRecord option) \<Rightarrow> (string \<rightharpoonup> string \<times> nat) \<Rightarrow>
   ((FileRecord \<times> ProcessedFileData) option \<Rightarrow> string \<Rightarrow> error + string) \<Rightarrow>
   string \<Rightarrow> int option \<Rightarrow> ChatMessage list \<Rightarrow> AgentResponse" where
  "processQuery getFile fs generateText query fileId conversationHistory =
     (case loadFile getFile fs fileId of
        Inl e \<Rightarrow> fallback
      | Inr file \<Rightarrow>
          (let conversationContext = buildConversationContext conversationHistory;
               userPrompt = buildUserPrompt query conversationContext
           in case generateText file userPrompt of
                Inl e \<Rightarrow> fallback
              | Inr text \<Rightarrow> parseAIResponse text (map_option snd file)))"

text \<open>
  The visualizations and the tables that a response carries: an object without the key
  carries none (the chat view tests
  \<^verbatim>\<open>message.visualizations && message.visualizations.length > 0\<close>).
\<close>

definition shown_visualizations :: "AgentResponse \<Rightarrow> VisualizationData list" where
  "shown_visualizations r = (case visualizations r of None \<Rightarrow> [] | Some vs \<Rightarrow> vs)"

definition shown_tables :: "AgentResponse \<Rightarrow> TableData list" where
  "shown_tables r = (case tables r of None \<Rightarrow> [] | Some ts \<Rightarrow> ts)"

section \<open>Texts with directives\<close>

text \<open>
  The shapes of generated text that the theorems on directives speak about. None of
  this is code of the program: these definitions describe inputs.

  \<open>free_of w s\<close>: no occurrence of the opener \<open>w\<close> begins in \<open>s\<close>, neither a whole
  one nor one that the end of \<open>s\<close> cuts off. \<open>plain s\<close>: that holds of both openers.
\<close>

fun free_of :: "string \<Rightarrow> string \<Rightarrow> bool" where
  "free_of w [] = True"
| "free_of w (c # cs) = (\<not> prefix (c # cs) w \<and> \<not> prefix w (c # cs) \<and> free_of w cs)"

definition plain :: "string \<Rightarrow> bool" where
  "plain s = (free_of ''[VIZ:'' s \<and> free_of ''[TABLE:'' s)"

text \<open>
  A text in segments: plain text, a closed token \<^verbatim>\<open>[VIZ:body]\<close> or a closed token
  \<^verbatim>\<open>[TABLE:body]\<close>. \<open>render\<close> is the text, \<open>plain_text\<close> what is left of it without
  the tokens, \<open>viz_tags\<close> and \<open>table_tags\<close> are its tokens of either kind in order.
\<close>

datatype segment = Plain string | Viz string | Table string

fun seg_text :: "segment \<Rightarrow> string" where
  "seg_text (Plain s) = s"
| "seg_text (Viz body) = ''[VIZ:'' @ body @ '']''"
| "seg_text (Table body) = ''[TABLE:'' @ body @ '']''"

definition render :: "segment list \<Rightarrow> string" where
  "render segs = concat (map seg_text segs)"

fun plain_text :: "segment list \<Rightarrow> string" where
  "plain_text [] = []"
| "plain_text (Plain s # segs) = s @ plain_text segs"
| "plain_text (Viz body # segs) = plain_text segs"
| "plain_text (Table body # segs) = plain_text segs"

fun viz_tags :: "segment list \<Rightarrow> string list" where
  "viz_tags [] = []"
| "viz_tags (Viz body # segs) = seg_text (Viz body) # viz_tags segs"
| "viz_tags (Plain s # segs) = viz_tags segs"
| "viz_tags (Table body # segs) = viz_tags segs"

fun table_tags :: "segment list \<Rightarrow> string list" where
  "table_tags [] = []"
| "table_tags (Table body # segs) = seg_text (Table body) # table_tags segs"
| "table_tags (Plain s # segs) = table_tags segs"
| "table_tags (Viz body # segs) = table_tags segs"

text \<open>
  \<open>tok_ok\<close>: the plain segments are plain and each token is closed by the first closing
  bracket after its opener (a body that is not empty and has no closing bracket; the
  body of a table token has no opening bracket either).
\<close>

fun tok_ok :: "segment \<Rightarrow> bool" where
  "tok_ok (Plain s) = plain s"
| "tok_ok (Viz body) = (body \<noteq> [] \<and> CHR '']'' \<notin> set body)"
| "tok_ok (Table body) = (body \<noteq> [] \<and> CHR '']'' \<notin> set body \<and> CHR ''['' \<notin> set body)"

text \<open>
  The shape that the extraction patterns ask of the body of a token, the text between
  the opener and the closing bracket. \<open>viz_shape\<close>: a first and a second field that are
  not empty, and after the second colon a remainder that is not empty (it may contain
  colons). \<open>table_shape\<close>: a first field that is not empty, and after the first colon a
  remainder that is not empty.
\<close>

definition viz_shape :: "string \<Rightarrow> bool" where
  "viz_shape body =
     (case split_on CHR '':'' body of
        f1 # f2 # f3 # fs \<Rightarrow> f1 \<noteq> [] \<and> f2 \<noteq> [] \<and> (f3 \<noteq> [] \<or> fs \<noteq> [])
      | _ \<Rightarrow> False)"

definition table_shape :: "string \<Rightarrow> bool" where
  "table_shape body =
     (case split_on CHR '':'' body of
        f1 # f2 # fs \<Rightarrow> f1 \<noteq> [] \<and> (f2 \<noteq> [] \<or> fs \<noteq> [])
      | _ \<Rightarrow> False)"

text \<open>
  \<open>wf_seg\<close>: the plain segments are plain and each token is a well-formed directive: its
  body has the shape of its kind and no bracket. \<open>malformed\<close>: a closed token that is
  not a directive: its body is not empty and has no bracket, but it has not the shape of
  its kind, as \<^verbatim>\<open>[VIZ:a:b]\<close>, \<^verbatim>\<open>[VIZ:bar::D]\<close> and \<^verbatim>\<open>[TABLE:a]\<close>.
\<close>

fun wf_seg :: "segment \<Rightarrow> bool" where
  "wf_seg (Plain s) = plain s"
| "wf_seg (Viz body) =
     (viz_shape body \<and> CHR '']'' \<notin> set body \<and> CHR ''['' \<notin> set body)"
| "wf_seg (Table body) =
     (table_shape body \<and> CHR '']'' \<notin> set body \<and> CHR ''['' \<notin> set body)"

fun malformed :: "segment \<Rightarrow> bool" where
  "malformed (Plain s) = False"
| "malformed (Viz body) =
     (body \<noteq> [] \<and> \<not> viz_shape body \<and> CHR '']'' \<notin> set body \<and> CHR ''['' \<notin> set body)"
| "malformed (Table body) =
     (body \<noteq> [] \<and> \<not> table_shape body \<and> CHR '']'' \<notin> set body \<and> CHR ''['' \<notin> set body)"

text \<open>
  A text of visualization directives with a gap before each: \<open>(gap, body)\<close> stands for
  the gap and then \<^verbatim>\<open>[VIZ:body]\<close>. \<open>gap_ok\<close>: the opener \<^verbatim>\<open>[VIZ:\<close> does not occur in the
  gap, and the body has the shape of a visualization directive and no closing bracket.
\<close>

fun viz_render :: "(string \<times> string) list \<Rightarrow> string" where
  "viz_render [] = []"
| "viz_render ((gap, body) # ps) = gap @ ''[VIZ:'' @ body @ '']'' @ viz_render ps"

definition gap_ok :: "string \<times> string \<Rightarrow> bool" where
  "gap_ok p =
     (\<not> sublist ''[VIZ:'' (fst p) \<and> viz_shape (snd p) \<and> CHR '']'' \<notin> set (snd p))"

text \<open>
  A replacement joins the text before a match to the text after it, and the pieces may
  make up an opener that was not there. \<open>ends_in w s\<close>: the text \<open>s\<close> ends in the
  beginning of the opener \<open>w\<close>, a proper prefix of it that is not empty. \<open>joins_ok\<close>: no
  match among the pieces of a scan stands after kept text that ends in the beginning of
  one of the openers \<open>ws\<close>, where \<open>acc\<close> is the text kept before the pieces.
  \<open>no_assembly s\<close>: that holds of both replacements of \<open>cleanText\<close> on \<open>s\<close>, of the
  first for the opener \<^verbatim>\<open>[VIZ:\<close> and of the second for both openers.
\<close>

fun ends_in :: "string \<Rightarrow> string \<Rightarrow> bool" where
  "ends_in w [] = False"
| "ends_in w (c # cs) = (strict_prefix (c # cs) w \<or> ends_in w cs)"

fun joins_ok :: "string list \<Rightarrow> string \<Rightarrow> piece list \<Rightarrow> bool" where
  "joins_ok ws acc [] = True"
| "joins_ok ws acc (Keep c # ps) = joins_ok ws (acc @ [c]) ps"
| "joins_ok ws acc (Hit m # ps) = (list_all (\<lambda>w. \<not> ends_in w acc) ws \<and> joins_ok ws acc ps)"

definition no_assembly :: "string \<Rightarrow> bool" where
  "no_assembly s =
     (joins_ok [''[VIZ:''] [] (rx_scan viz_strip_re None s) \<and>
      joins_ok [''[VIZ:'', ''[TABLE:''] []
        (rx_scan table_strip_re None (remove_all viz_strip_re s)))"

section \<open>Synthesized charts and tables\<close>

text \<open>
  C5. For a file of kind csv, \<open>generateVisualizationData\<close> answers the chart kind
  \<^verbatim>\<open>line\<close> with the two monthly series Sales and Profit of 6 points, \<^verbatim>\<open>pie\<close> with the
  one series Revenue Share of 4 slices that sum to 100, \<^verbatim>\<open>area\<close> with the two
  quarterly series Revenue and Costs of 4 points, and every other chart kind, known or
  not, with the one regional series Sales of 5 categories.
\<close>

theorem csv_visualization_fixtures:
  assumes "pf_type pd = Csv" and "chartType \<notin> {''line'', ''pie'', ''area''}"
  shows
    "(let d = generateVisualizationData ''line'' (Some pd) in
        cd_labels d = [''Jan'', ''Feb'', ''Mar'', ''Apr'', ''May'', ''Jun''] \<and>
        map ds_label (cd_datasets d) = [''Sales'', ''Profit''] \<and>
        map (length \<circ> ds_data) (cd_datasets d) = [6, 6]) \<and>
     (let d = generateVisualizationData ''pie'' (Some pd) in
        length (cd_labels d) = 4 \<and>
        map ds_label (cd_datasets d) = [''Revenue Share''] \<and>
        map (length \<circ> ds_data) (cd_datasets d) = [4] \<and>
        map (sum_list \<circ> ds_data) (cd_datasets d) = [100]) \<and>
     (let d = generateVisualizationData ''area'' (Some pd) in
        cd_labels d = [''Q1'', ''Q2'', ''Q3'', ''Q4''] \<and>
        map ds_label (cd_datasets d) = [''Revenue'', ''Costs''] \<and>
        map (length \<circ> ds_data) (cd_datasets d) = [4, 4]) \<and>
     (let d = generateVisualizationData chartType (Some pd) in
        cd_labels d = [''North'', ''South'', ''East'', ''West'', ''Central''] \<and>
        map ds_label (cd_datasets d) = [''Sales''] \<and>
        map (length \<circ> ds_data) (cd_datasets d) = [5])"
  using assms
  by (simp add: generateVisualizationData_def generateCSVVisualizationData_def)

theorem csv_visualization_fixtures_witness:
  "pf_type (processCsvFile ''a,b'' 3) = Csv \<and> ''scatter'' \<notin> {''line'', ''pie'', ''area''} \<and>
   map ds_label (cd_datasets (generateVisualizationData ''scatter'' (Some (processCsvFile ''a,b'' 3))))
     = [''Sales'']"
proof -
  have k: "pf_type (processCsvFile ''a,b'' 3) = Csv"
    by (simp add: processCsvFile_def Let_def)
  have n: "''scatter'' \<notin> {''line'', ''pie'', ''area''}"
    by simp
  show ?thesis
    using k n csv_visualization_fixtures [OF k n] by (simp add: Let_def)
qed

lemma generateTableData_shape:
  "\<forall>row \<in> set (snd (generateTableData pd)). length row = length (fst (generateTableData pd))"
  by (cases pd; cases "pf_type (the pd)"; simp add: generateTableData_def)

lemma table_of_match_shape:
  "t \<in> set (table_of_match pd m) \<Longrightarrow> row \<in> set (tbl_rows t) \<Longrightarrow>
   length row = length (tbl_headers t)"
  using generateTableData_shape [of pd]
  by (auto simp: table_of_match_def Let_def split: if_splits)

lemma parse_table_example:
  "tables (parseAIResponse ''[TABLE:Top:Rows]'' None) =
     Some [\<lparr>tbl_title = ''Top'', tbl_description = ''Rows'',
            tbl_headers = fst (generateTableData None), tbl_rows = snd (generateTableData None)\<rparr>]"
  by (simp add: parseAIResponse_def Let_def match_all_def table_re_def table_of_match_def
      slice_to_last_def)

text \<open>
  C9. For every file kind, and for no file, each row that \<open>generateTableData\<close> returns
  is as long as the list of headers; so every table of every response that
  \<open>parseAIResponse\<close> builds has rows of the length of its headers, although nothing
  checks it.
\<close>

theorem table_rows_match_headers:
  "(\<forall>row \<in> set (snd (generateTableData pd)). length row = length (fst (generateTableData pd))) \<and>
   (\<exists>ts. tables (parseAIResponse text pd) = Some ts \<and>
      (\<forall>t \<in> set ts. \<forall>row \<in> set (tbl_rows t). length row = length (tbl_headers t)))"
proof
  show "\<forall>row \<in> set (snd (generateTableData pd)). length row = length (fst (generateTableData pd))"
    by (rule generateTableData_shape)
next
  have "tables (parseAIResponse text pd) =
          Some (concat (map (table_of_match pd) (match_all table_re text)))"
    by (simp add: parseAIResponse_def Let_def)
  moreover have "\<forall>t \<in> set (concat (map (table_of_match pd) (match_all table_re text))).
        \<forall>row \<in> set (tbl_rows t). length row = length (tbl_headers t)"
    by (auto dest: table_of_match_shape)
  ultimately show "\<exists>ts. tables (parseAIResponse text pd) = Some ts \<and>
      (\<forall>t \<in> set ts. \<forall>row \<in> set (tbl_rows t). length row = length (tbl_headers t))"
    by blast
qed

theorem table_rows_match_headers_witness:
  "[''Sample Item 1'', ''100'', ''Active''] \<in> set (snd (generateTableData None)) \<and>
   length [''Sample Item 1'', ''100'', ''Active''] = length (fst (generateTableData None)) \<and>
   map (length \<circ> tbl_headers) (the (tables (parseAIResponse ''[TABLE:Top:Rows]'' None))) = [3] \<and>
   map (map length \<circ> tbl_rows) (the (tables (parseAIResponse ''[TABLE:Top:Rows]'' None)))
     = [[3, 3, 3]]"
  using table_rows_match_headers [of None "''[TABLE:Top:Rows]''"] parse_table_example
  by (simp add: generateTableData_def)

section \<open>Ingestion of a delimited table\<close>

lemma rx_scan_Sym:
  "rx_scan (Sym p) prev s = map (\<lambda>c. if p c then Hit [c] else Keep c) s"
  by (induction s arbitrary: prev) auto

lemma kept_classes: "kept (map (\<lambda>c. if p c then Hit [c] else Keep c) s) = filter (\<lambda>c. \<not> p c) s"
  by (induction s) auto

lemma header_cell_filter: "header_cell h = filter (\<lambda>c. c \<noteq> CHR 0x22) (trim h)"
proof -
  have "(\<lambda>c. \<not> CHR 0x22 = c) = (\<lambda>c. c \<noteq> CHR 0x22)" by auto
  then show ?thesis
    by (simp add: header_cell_def remove_all_def rx_scan_Sym kept_classes)
qed

lemma is_space_simps [simp]:
  "is_space CHR '' ''" "is_space NL"
  by (simp_all add: is_space_def NL_def)

text \<open>
  C7, amended. \<open>processCsvFile\<close> takes the first line that is not blank as the header
  row: it splits the line on the comma, trims each cell and then removes every double
  quote of the cell, the ones inside it too. The summary has as many rows as there are
  other lines that are not blank, and as many columns as there are header cells. For
  the text \<^verbatim>\<open>a,b,c\n1,2,3\n4,5,6\<close> the headers are a, b, c, with 2 rows and 3 columns.
\<close>

theorem csv_header_row:
  "(filter (\<lambda>line. trim line \<noteq> []) (split_on NL fileContent) = l # rest \<longrightarrow>
      pf_structure (processCsvFile fileContent sz) =
        Some (CsvStructure
               (Some (map (\<lambda>h. filter (\<lambda>c. c \<noteq> CHR 0x22) (trim h)) (split_on CHR '','' l)))
               (int (length rest)) (length (split_on CHR '','' l)) '','')) \<and>
   pf_structure (processCsvFile (''a,b,c'' @ [NL] @ ''1,2,3'' @ [NL] @ ''4,5,6'') sz) =
     Some (CsvStructure (Some [''a'', ''b'', ''c'']) 2 3 '','')"
proof
  show "filter (\<lambda>line. trim line \<noteq> []) (split_on NL fileContent) = l # rest \<longrightarrow>
      pf_structure (processCsvFile fileContent sz) =
        Some (CsvStructure
               (Some (map (\<lambda>h. filter (\<lambda>c. c \<noteq> CHR 0x22) (trim h)) (split_on CHR '','' l)))
               (int (length rest)) (length (split_on CHR '','' l)) '','')"
    by (simp add: processCsvFile_def nonblank_lines_def Let_def header_cell_filter)
next
  show "pf_structure (processCsvFile (''a,b,c'' @ [NL] @ ''1,2,3'' @ [NL] @ ''4,5,6'') sz) =
     Some (CsvStructure (Some [''a'', ''b'', ''c'']) 2 3 '','')"
    by (simp add: processCsvFile_def nonblank_lines_def Let_def header_cell_filter NL_def
        trim_def is_space_def)
qed

theorem csv_header_row_witness:
  "filter (\<lambda>line. trim line \<noteq> []) (split_on NL ('' x ,y'' @ [NL] @ ''1,2'')) = [ '' x ,y'', ''1,2''] \<and>
   pf_structure (processCsvFile ('' x ,y'' @ [NL] @ ''1,2'') 9) =
     Some (CsvStructure (Some [''x'', ''y'']) 1 2 '','')"
proof -
  have h: "filter (\<lambda>line. trim line \<noteq> []) (split_on NL ('' x ,y'' @ [NL] @ ''1,2'')) = [ '' x ,y'', ''1,2'']"
    by (simp add: NL_def trim_def is_space_def)
  show ?thesis
    using h csv_header_row [of "'' x ,y'' @ [NL] @ ''1,2''" "'' x ,y''" "[''1,2'']" 9]
    by (simp add: trim_def is_space_def)
qed

text \<open>
  C7 as stated fails: the cell \<^verbatim>\<open>a"b\<close> has no surrounding quotes, and loses the
  quote inside it.
\<close>

theorem csv_header_quotes_counterexample:
  "pf_structure (processCsvFile (''a'' @ [CHR 0x22] @ ''b,c'') 5) =
     Some (CsvStructure (Some [''ab'', ''c'']) 0 2 '','')"
  by (simp add: processCsvFile_def nonblank_lines_def Let_def header_cell_filter NL_def
        trim_def is_space_def)

text \<open>
  C10. For a text whose lines are all blank, the empty text among them,
  \<open>processCsvFile\<close> returns a summary with \<open>- 1\<close> rows, no headers and 0 columns.
\<close>

theorem csv_without_lines:
  assumes "\<forall>line \<in> set (split_on NL fileContent). trim line = []"
  shows "pf_structure (processCsvFile fileContent sz) = Some (CsvStructure None (- 1) 0 '','') \<and>
         md_columns (pf_metadata (processCsvFile fileContent sz)) = None \<and>
         md_lines (pf_metadata (processCsvFile fileContent sz)) = Some 0"
proof -
  have "nonblank_lines fileContent = []"
    using assms by (simp add: nonblank_lines_def filter_empty_conv)
  then show ?thesis
    by (simp add: processCsvFile_def Let_def)
qed

theorem csv_without_lines_witness:
  "split_on NL [] = [[]] \<and> trim [] = [] \<and>
   pf_structure (processCsvFile [] 0) = Some (CsvStructure None (- 1) 0 '','')"
proof -
  have h: "\<forall>line \<in> set (split_on NL []). trim line = []"
    by (simp add: trim_def)
  show ?thesis
    using csv_without_lines [OF h, of 0] by (simp add: trim_def)
qed

section \<open>Failure of the generation call\<close>

text \<open>
  C2. Whatever the query, the file and the history: when the generation call throws,
  \<open>processQuery\<close> returns the fixed response of the \<^verbatim>\<open>catch\<close> block, with the
  apology as its text, confidence 0, no visualizations, no tables and no sources.
\<close>

theorem generation_failure_fallback:
  assumes "\<And>file. loadFile getFile fs fileId = Inr file \<Longrightarrow>
             \<exists>e. generateText file (buildUserPrompt query (buildConversationContext history)) = Inl e"
  shows "processQuery getFile fs generateText query fileId history =
           \<lparr>content = ''I apologize, but I encountered an error while processing your request. Please try again.'',
            visualizations = None, tables = None, confidence = 0, sources = []\<rparr> \<and>
         shown_visualizations (processQuery getFile fs generateText query fileId history) = [] \<and>
         shown_tables (processQuery getFile fs generateText query fileId history) = []"
proof (cases "loadFile getFile fs fileId")
  case (Inl e)
  then show ?thesis
    by (simp add: processQuery_def fallback_def shown_visualizations_def shown_tables_def)
next
  case (Inr ctx)
  from assms [OF Inr] obtain e where
    "generateText ctx (buildUserPrompt query (buildConversationContext history)) = Inl e" ..
  with Inr show ?thesis
    by (simp add: processQuery_def fallback_def shown_visualizations_def shown_tables_def Let_def)
qed

theorem generation_failure_fallback_witness:
  "processQuery (\<lambda>i. Inr None) Map.empty (\<lambda>file prompt. Inl GenerationFailure) ''Show me a bar chart''
     None [] = fallback"
  using generation_failure_fallback
    [of "\<lambda>i. Inr None" Map.empty None "\<lambda>file prompt. Inl GenerationFailure" "''Show me a bar chart''" "[]"]
  by (simp add: fallback_def)

section \<open>Formatting a size\<close>

lemma size_index_eq:
  assumes "1024 ^ k \<le> bytes" and "bytes < 1024 ^ (k + 1)"
  shows "size_index bytes = int k"
proof -
  have "\<lfloor>log (real 1024) (real bytes)\<rfloor> = int k"
    using assms by (intro floor_log_nat_eq_if) auto
  then show ?thesis
    by (simp add: size_index_def log_def)
qed

lemma toFixed2_quotient:
  "toFixed2 (real bytes / 1024 ^ k) = int ((200 * bytes + 1024 ^ k) div (2 * 1024 ^ k))"
proof -
  have "real bytes / 1024 ^ k * 100 + 1 / 2 = real (200 * bytes + 1024 ^ k) / real (2 * 1024 ^ k)"
    by (simp add: field_simps)
  then show ?thesis
    unfolding toFixed2_def by (simp only: floor_divide_of_nat_eq)
qed

lemma formatFileSize_at:
  assumes "1024 ^ k \<le> bytes" and "bytes < 1024 ^ (k + 1)"
  shows "formatFileSize bytes =
           show_hundredths (toFixed2 (real bytes / 1024 ^ k)) @ '' '' @
           (if k < 4 then sizes ! k else ''undefined'')"
proof -
  have "bytes \<noteq> 0"
    using assms(1) by (cases "bytes = 0") auto
  then show ?thesis
    by (simp add: formatFileSize_def size_index_eq [OF assms] Let_def sizes_def)
qed

lemma size_index_exists:
  assumes "0 < bytes" and "bytes < (1024::nat) ^ 4"
  shows "\<exists>k<4. 1024 ^ k \<le> bytes \<and> bytes < 1024 ^ (k + 1)"
proof -
  consider "bytes < 1024" | "1024 \<le> bytes \<and> bytes < 1024 ^ 2"
    | "1024 ^ 2 \<le> bytes \<and> bytes < 1024 ^ 3" | "1024 ^ 3 \<le> bytes"
    by linarith
  then show ?thesis
  proof cases
    case 1 with assms show ?thesis by (intro exI [of _ 0]) simp
  next
    case 2 then show ?thesis by (intro exI [of _ 1]) simp
  next
    case 3 then show ?thesis by (intro exI [of _ 2]) simp
  next
    case 4 with assms show ?thesis by (intro exI [of _ 3]) simp
  qed
qed

lemmas show_hundredths_eval = show_hundredths_def show_nat.simps digit_char_def sizes_def

text \<open>
  C8, amended. \<open>formatFileSize\<close> prints 0 as \<^verbatim>\<open>0 Bytes\<close>, 1024 as \<^verbatim>\<open>1 KB\<close> and
  1536 as \<^verbatim>\<open>1.5 KB\<close>. For every byte count from 1 to \<open>1024 ^ 4 - 1\<close> the index
  \<open>i\<close> of the unit is \<open>\<lfloor>ln bytes / ln 1024\<rfloor>\<close>, one of 0 to 3, the unit is
  \<open>sizes ! i\<close>, and the value is \<open>bytes / 1024 ^ i\<close> rounded to the nearest hundredth,
  the half upwards, printed without the zeros at its end, then a space and the unit.
\<close>

theorem formatFileSize_units:
  "formatFileSize 0 = ''0 Bytes'' \<and> formatFileSize 1024 = ''1 KB'' \<and>
   formatFileSize 1536 = ''1.5 KB'' \<and>
   (0 < bytes \<and> bytes < 1024 ^ 4 \<longrightarrow>
      (\<exists>i<4. size_index bytes = int i \<and>
         toFixed2 (real bytes / 1024 ^ i) = int ((200 * bytes + 1024 ^ i) div (2 * 1024 ^ i)) \<and>
         formatFileSize bytes =
           show_hundredths (toFixed2 (real bytes / 1024 ^ i)) @ '' '' @ sizes ! i))"
proof (intro conjI impI)
  show "formatFileSize 0 = ''0 Bytes''"
    by (simp add: formatFileSize_def)
  show "formatFileSize 1024 = ''1 KB''"
    using formatFileSize_at [of 1 1024] by (simp add: toFixed2_def show_hundredths_eval)
  show "formatFileSize 1536 = ''1.5 KB''"
    using formatFileSize_at [of 1 1536] by (simp add: toFixed2_def show_hundredths_eval)
next
  assume "0 < bytes \<and> bytes < 1024 ^ 4"
  then obtain k where k: "k < 4" "1024 ^ k \<le> bytes" "bytes < 1024 ^ (k + 1)"
    using size_index_exists [of bytes] by blast
  have "size_index bytes = int k"
    using k by (intro size_index_eq)
  moreover have "formatFileSize bytes =
      show_hundredths (toFixed2 (real bytes / 1024 ^ k)) @ '' '' @ sizes ! k"
    using formatFileSize_at [OF k(2,3)] k(1) by simp
  ultimately show "\<exists>i<4. size_index bytes = int i \<and>
         toFixed2 (real bytes / 1024 ^ i) = int ((200 * bytes + 1024 ^ i) div (2 * 1024 ^ i)) \<and>
         formatFileSize bytes =
           show_hundredths (toFixed2 (real bytes / 1024 ^ i)) @ '' '' @ sizes ! i"
    using k(1) toFixed2_quotient by blast
qed

theorem formatFileSize_units_witness:
  "(0::nat) < 5767168 \<and> (5767168::nat) < 1024 ^ 4 \<and> formatFileSize 5767168 = ''5.5 MB''"
proof -
  have i: "size_index 5767168 = int 2"
    by (intro size_index_eq) simp_all
  from formatFileSize_units [of 5767168] obtain k where
    "size_index 5767168 = int k"
    "toFixed2 (real 5767168 / 1024 ^ k) = int ((200 * 5767168 + 1024 ^ k) div (2 * 1024 ^ k))"
    "formatFileSize 5767168 = show_hundredths (toFixed2 (real 5767168 / 1024 ^ k)) @ '' '' @ sizes ! k"
    by auto
  with i show ?thesis
    by (simp add: show_hundredths_eval)
qed

text \<open>
  C8 as stated fails from \<open>1024 ^ 4\<close> bytes on: the index is 4, the array has no such
  entry, and the unit printed for \<open>2 ^ 41\<close> bytes is \<^verbatim>\<open>undefined\<close>.
\<close>

theorem formatFileSize_tebibytes_counterexample:
  "formatFileSize 2199023255552 = ''2 undefined''"
  using formatFileSize_at [of 4 2199023255552]
  by (simp add: toFixed2_def show_hundredths_eval)

section \<open>Structure of a log file\<close>

lemma rx_test_from_append:
  assumes "rx_match r (if pre = [] then prev else Some (last pre), s) \<noteq> []"
  shows "rx_test_from r prev (pre @ s)"
  using assms
proof (induction pre arbitrary: prev)
  case Nil
  then show ?case by (cases s) auto
next
  case (Cons a pre)
  have "rx_test_from r (Some a) (pre @ s)"
    using Cons.prems by (intro Cons.IH) (auto split: if_splits)
  then show ?case by simp
qed

lemma not_digit [simp]:
  "\<not> is_digit CHR ''-''" "\<not> is_digit CHR '':''" "\<not> is_digit CHR ''.''" "\<not> is_digit CHR '' ''"
  by (simp_all add: is_digit_def)

lemma timestamp_match:
  assumes "\<forall>c \<in> set [y1, y2, y3, y4, m1, m2, d1, d2, h1, h2, n1, n2, s1, s2]. is_digit c"
    and "is_space sep \<or> sep = CHR ''T''"
  shows "rx_match timestamp_re (prev,
           [y1, y2, y3, y4, CHR ''-'', m1, m2, CHR ''-'', d1, d2, sep,
            h1, h2, CHR '':'', n1, n2, CHR '':'', s1, s2] @ post) \<noteq> []"
  using assms by (cases post) (auto simp: timestamp_re_def)

lemma level_match:
  "rx_match level_re (Some CHR '' '', ''ERROR 192.168.1.1 failed'' @ post) \<noteq> []"
  by (simp add: level_re_def same_letter_def word_opt_def next_char_def is_word_def)

lemma ip_match:
  "rx_match ip_re (Some CHR '' '', ''192.168.1.1 failed'' @ post) \<noteq> []"
  by (simp add: ip_re_def word_opt_def next_char_def is_word_def is_digit_def)

lemma pf_structure_log:
  "pf_structure (processLogFile fileContent sz) =
     Some (LogStructure (rx_test timestamp_re fileContent) (rx_test level_re fileContent)
            (rx_test ip_re fileContent) (length (nonblank_lines fileContent)))"
  by (simp add: processLogFile_def Let_def)

text \<open>
  C6, amended. \<open>processLogFile\<close> sets \<open>hasTimestamps\<close> whenever the text contains a
  date \<^verbatim>\<open>YYYY-MM-DD\<close>, then one white space character or the letter T, then a time
  \<^verbatim>\<open>hh:mm:ss\<close>. A text that contains the line
  \<^verbatim>\<open>2024-01-15 10:30:00 ERROR 192.168.1.1 failed\<close> has all three flags set.
\<close>

theorem log_structure_detection:
  "((\<forall>c \<in> set [y1, y2, y3, y4, m1, m2, d1, d2, h1, h2, n1, n2, s1, s2]. is_digit c) \<and>
    (is_space sep \<or> sep = CHR ''T'') \<longrightarrow>
      (\<exists>l i n. pf_structure (processLogFile
          (pre @ [y1, y2, y3, y4, CHR ''-'', m1, m2, CHR ''-'', d1, d2, sep,
                  h1, h2, CHR '':'', n1, n2, CHR '':'', s1, s2] @ post) sz)
        = Some (LogStructure True l i n))) \<and>
   (\<exists>n. pf_structure (processLogFile
          (pre @ ''2024-01-15 10:30:00 ERROR 192.168.1.1 failed'' @ post) sz)
        = Some (LogStructure True True True n))"
proof (intro conjI impI)
  assume a: "(\<forall>c \<in> set [y1, y2, y3, y4, m1, m2, d1, d2, h1, h2, n1, n2, s1, s2]. is_digit c) \<and>
    (is_space sep \<or> sep = CHR ''T'')"
  have "rx_test timestamp_re (pre @ [y1, y2, y3, y4, CHR ''-'', m1, m2, CHR ''-'', d1, d2, sep,
                  h1, h2, CHR '':'', n1, n2, CHR '':'', s1, s2] @ post)"
    unfolding rx_test_def using a by (intro rx_test_from_append timestamp_match) auto
  then show "\<exists>l i n. pf_structure (processLogFile
          (pre @ [y1, y2, y3, y4, CHR ''-'', m1, m2, CHR ''-'', d1, d2, sep,
                  h1, h2, CHR '':'', n1, n2, CHR '':'', s1, s2] @ post) sz)
        = Some (LogStructure True l i n)"
    by (simp add: pf_structure_log)
next
  let ?line = "''2024-01-15 10:30:00 ERROR 192.168.1.1 failed''"
  have t: "rx_test timestamp_re (pre @ ?line @ post)"
    unfolding rx_test_def
    using timestamp_match [of "CHR ''2''" "CHR ''0''" "CHR ''2''" "CHR ''4''" "CHR ''0''" "CHR ''1''"
        "CHR ''1''" "CHR ''5''" "CHR ''1''" "CHR ''0''" "CHR ''3''" "CHR ''0''" "CHR ''0''" "CHR ''0''"
        "CHR '' ''" _ "'' ERROR 192.168.1.1 failed'' @ post"]
    by (intro rx_test_from_append) (simp add: is_digit_def is_space_def)
  have "rx_test_from level_re None ((pre @ ''2024-01-15 10:30:00 '') @ ''ERROR 192.168.1.1 failed'' @ post)"
    by (rule rx_test_from_append) (use level_match [of post] in simp)
  then have l: "rx_test level_re (pre @ ?line @ post)"
    by (simp add: rx_test_def)
  have "rx_test_from ip_re None ((pre @ ''2024-01-15 10:30:00 ERROR '') @ ''192.168.1.1 failed'' @ post)"
    by (rule rx_test_from_append) (use ip_match [of post] in simp)
  then have i: "rx_test ip_re (pre @ ?line @ post)"
    by (simp add: rx_test_def)
  show "\<exists>n. pf_structure (processLogFile (pre @ ?line @ post) sz)
        = Some (LogStructure True True True n)"
    using t l i by (simp add: pf_structure_log)
qed

theorem log_structure_detection_witness:
  "list_all is_digit ''20240115103000'' \<and>
   hasTimestamps (the (pf_structure (processLogFile ''at 2024-01-15T10:30:00Z'' 23)))"
proof -
  have d: "list_all is_digit ''20240115103000''"
    by (simp add: is_digit_def)
  show ?thesis
    using d log_structure_detection [of "CHR ''2''" "CHR ''0''" "CHR ''2''" "CHR ''4''" "CHR ''0''"
        "CHR ''1''" "CHR ''1''" "CHR ''5''" "CHR ''1''" "CHR ''0''" "CHR ''3''" "CHR ''0''" "CHR ''0''"
        "CHR ''0''" "CHR ''T''" "''at ''" "''Z''" 23]
    by auto
qed

text \<open>C6 as stated fails: a date alone, without a time after it, sets no flag.\<close>

theorem log_bare_date_counterexample:
  "pf_structure (processLogFile ''2024-01-15'' 10) = Some (LogStructure False False False 1)"
  by (simp add: pf_structure_log rx_test_def timestamp_re_def level_re_def ip_re_def
      nonblank_lines_def NL_def trim_def is_space_def is_digit_def same_letter_def word_opt_def
      next_char_def is_word_def)

section \<open>Directives in the generated text\<close>

subsection \<open>Matching a field\<close>

lemma rep_then_sym:
  assumes "\<not> p d"
  shows "concat (map (\<lambda>st. concat (map k (rx_match (Sym ((=) d)) st))) (rep p m None prev s)) =
           (case dropWhile p s of
              [] \<Rightarrow> []
            | c # rest \<Rightarrow> if c = d \<and> m \<le> length (takeWhile p s) then k (Some d, rest) else [])"
proof (induction s arbitrary: m prev)
  case Nil
  then show ?case by simp
next
  case (Cons a s)
  let ?F = "\<lambda>st. concat (map k (rx_match (Sym ((=) d)) st))"
  show ?case
  proof (cases "p a")
    case True
    then have ad: "a \<noteq> d" using assms by auto
    have "concat (map ?F (rep p m None prev (a # s))) =
          concat (map ?F (rep p (m - 1) None (Some a) s))"
      using True ad by simp
    also have "\<dots> = (case dropWhile p s of
              [] \<Rightarrow> []
            | c # rest \<Rightarrow> if c = d \<and> m - 1 \<le> length (takeWhile p s) then k (Some d, rest) else [])"
      by (rule Cons.IH)
    also have "\<dots> = (case dropWhile p (a # s) of
              [] \<Rightarrow> []
            | c # rest \<Rightarrow> if c = d \<and> m \<le> length (takeWhile p (a # s)) then k (Some d, rest) else [])"
    proof (cases "dropWhile p s")
      case Nil
      show ?thesis using True by (simp add: Nil)
    next
      case (Cons c rest)
      have "(m - 1 \<le> length (takeWhile p s)) = (m \<le> Suc (length (takeWhile p s)))"
        by arith
      then show ?thesis using True by (simp add: Cons)
    qed
    finally show ?thesis .
  next
    case False
    then show ?thesis by auto
  qed
qed

lemma rx_match_Seq_fun: "rx_match (Seq a b) = (\<lambda>st. concat (map (rx_match b) (rx_match a st)))"
  by (rule ext) simp

lemma seq_rep_sym:
  assumes "\<not> p d"
  shows "rx_match (Seq (Rep p m None) (Seq (Sym ((=) d)) r)) (prev, s) =
           (case dropWhile p s of
              [] \<Rightarrow> []
            | c # rest \<Rightarrow> if c = d \<and> m \<le> length (takeWhile p s) then rx_match r (Some d, rest) else [])"
  using assms rep_then_sym [of p d "rx_match r" m prev s] by (simp add: rx_match_Seq_fun)

lemma seq_rep_sym_last:
  assumes "\<not> p d"
  shows "rx_match (Seq (Rep p m None) (Sym ((=) d))) (prev, s) =
           (case dropWhile p s of
              [] \<Rightarrow> []
            | c # rest \<Rightarrow> if c = d \<and> m \<le> length (takeWhile p s) then [(Some d, rest)] else [])"
  using assms rep_then_sym [of p d "\<lambda>st. [st]" m prev s] by simp

text \<open>A field: a run of characters up to a delimiter that the run excludes.\<close>

lemma field_hit:
  assumes "d \<notin> set x" and "x \<noteq> []"
  shows "rx_match (Seq (Rep (\<lambda>c. c \<noteq> d) 1 None) (Seq (Sym ((=) d)) r)) (prev, x @ d # rest) =
           rx_match r (Some d, rest)"
proof -
  have dw: "dropWhile (\<lambda>c. c \<noteq> d) (x @ d # rest) = d # rest"
    using assms(1) by (auto simp: dropWhile_append3)
  have tw: "takeWhile (\<lambda>c. c \<noteq> d) (x @ d # rest) = x"
    using assms(1) by (auto simp: takeWhile_tail)
  show ?thesis
    by (subst seq_rep_sym) (use assms(2) in \<open>simp_all add: dw tw Suc_le_eq\<close>)
qed

lemma field_hit_last:
  assumes "d \<notin> set x" and "x \<noteq> []"
  shows "rx_match (Seq (Rep (\<lambda>c. c \<noteq> d) 1 None) (Sym ((=) d))) (prev, x @ d # rest) =
           [(Some d, rest)]"
proof -
  have dw: "dropWhile (\<lambda>c. c \<noteq> d) (x @ d # rest) = d # rest"
    using assms(1) by (auto simp: dropWhile_append3)
  have tw: "takeWhile (\<lambda>c. c \<noteq> d) (x @ d # rest) = x"
    using assms(1) by (auto simp: takeWhile_tail)
  show ?thesis
    by (subst seq_rep_sym_last) (use assms(2) in \<open>simp_all add: dw tw Suc_le_eq\<close>)
qed

lemma field_empty:
  "rx_match (Seq (Rep (\<lambda>c. c \<noteq> d) 1 None) (Seq (Sym ((=) d)) r)) (prev, d # rest) = []"
  by (subst seq_rep_sym) simp_all

subsection \<open>Scanning a text\<close>

lemma hits_append [simp]: "hits (ps @ qs) = hits ps @ hits qs"
  by (induction ps rule: hits.induct) auto

lemma kept_append [simp]: "kept (ps @ qs) = kept ps @ kept qs"
  by (induction ps rule: kept.induct) auto

lemma hits_Keep [simp]: "hits (map Keep s) = []"
  by (induction s) auto

lemma kept_Keep [simp]: "kept (map Keep s) = s"
  by (induction s) auto

lemma rx_scan_plain_prefix:
  assumes "\<And>prev c cs. c \<noteq> b \<Longrightarrow> rx_match r (prev, c # cs) = []"
    and "b \<notin> set pre"
  shows "rx_scan r prev (pre @ s) =
           map Keep pre @ rx_scan r (if pre = [] then prev else Some (last pre)) s"
  using assms(2)
proof (induction pre arbitrary: prev)
  case Nil
  then show ?case by simp
next
  case (Cons a pre)
  then have "rx_match r (prev, a # pre @ s) = []"
    by (intro assms(1)) auto
  then show ?case
    using Cons by simp
qed

lemma rx_scan_skip_prefix:
  assumes "\<And>u p. suffix u pre \<Longrightarrow> u \<noteq> [] \<Longrightarrow> rx_match r (p, u @ s) = []"
  shows "rx_scan r prev (pre @ s) =
           map Keep pre @ rx_scan r (if pre = [] then prev else Some (last pre)) s"
  using assms
proof (induction pre arbitrary: prev)
  case Nil
  then show ?case by simp
next
  case (Cons a pre)
  have "rx_match r (prev, (a # pre) @ s) = []"
    by (rule Cons.prems) simp_all
  moreover have "rx_scan r (Some a) (pre @ s) =
      map Keep pre @ rx_scan r (if pre = [] then Some a else Some (last pre)) s"
    by (rule Cons.IH) (simp add: Cons.prems suffix_ConsI)
  ultimately show ?case by simp
qed

lemma rx_scan_hit:
  assumes "rx_match r (prev, m @ rest) = (q, rest) # others" and "m \<noteq> []"
  shows "rx_scan r prev (m @ rest) = Hit m # rx_scan r q rest"
proof -
  obtain c cs where m: "m = c # cs"
    using assms(2) by (cases m) auto
  show ?thesis
    using assms(1) unfolding m by simp
qed

lemma rx_scan_miss:
  assumes "rx_match r (prev, c # cs) = []"
  shows "rx_scan r prev (c # cs) = Keep c # rx_scan r (Some c) cs"
  using assms by simp

text \<open>Each extraction pattern starts with an opening bracket.\<close>

lemma opens_viz: "c \<noteq> CHR ''['' \<Longrightarrow> rx_match viz_re (prev, c # cs) = []"
  "rx_match viz_re (prev, []) = []"
  by (simp_all add: viz_re_def)

lemma opens_table: "c \<noteq> CHR ''['' \<Longrightarrow> rx_match table_re (prev, c # cs) = []"
  "rx_match table_re (prev, []) = []"
  by (simp_all add: table_re_def)

lemma lit_prefix:
  "w \<noteq> [] \<Longrightarrow> rx_match (Seq (lit w) r) (prev, w @ s) = rx_match r (Some (last w), s)"
proof (induction w arbitrary: prev rule: lit.induct)
  case 1
  then show ?case by simp
next
  case (2 c)
  then show ?case by simp
next
  case (3 c v va)
  then show ?case by simp
qed

lemma lit_match:
  "w \<noteq> [] \<Longrightarrow> rx_match (Seq (lit w) r) (prev, s) =
     (if prefix w s then rx_match r (Some (last w), drop (length w) s) else [])"
proof (induction w arbitrary: prev s rule: lit.induct)
  case 1
  then show ?case by simp
next
  case (2 c)
  then show ?case by (cases s) auto
next
  case (3 c v va)
  have IH: "rx_match (Seq (lit (v # va)) r) (q, t) =
      (if prefix (v # va) t then rx_match r (Some (last (v # va)), drop (length (v # va)) t) else [])"
    for q t
    by (rule "3.IH") simp
  show ?case
  proof (cases s)
    case Nil
    then show ?thesis by simp
  next
    case (Cons a s')
    have "rx_match (Seq (lit (c # v # va)) r) (prev, a # s') =
          (if c = a then rx_match (Seq (lit (v # va)) r) (Some a, s') else [])"
      by simp
    also have "\<dots> = (if prefix (c # v # va) (a # s')
        then rx_match r (Some (last (c # v # va)), drop (length (c # v # va)) (a # s')) else [])"
      by (simp only: IH) auto
    finally show ?thesis
      unfolding Cons .
  qed
qed

lemma viz_re_hit:
  assumes "f1 \<noteq> []" "CHR '':'' \<notin> set f1" "f2 \<noteq> []" "CHR '':'' \<notin> set f2"
    "f3 \<noteq> []" "CHR '']'' \<notin> set f3"
  shows "rx_match viz_re (prev, ''[VIZ:'' @ f1 @ CHR '':'' # f2 @ CHR '':'' # f3 @ CHR '']'' # post)
           = [(Some CHR '']'', post)]"
  unfolding viz_re_def seqs.simps
  by (subst lit_prefix, simp, subst field_hit, fact, fact, subst field_hit, fact, fact,
      subst field_hit_last, fact, fact, rule refl)

lemma viz_strip_re_hit:
  assumes "body \<noteq> []" "CHR '']'' \<notin> set body"
  shows "rx_match viz_strip_re (prev, ''[VIZ:'' @ body @ CHR '']'' # post) = [(Some CHR '']'', post)]"
  unfolding viz_strip_re_def seqs.simps
  by (subst lit_prefix, simp, subst field_hit_last, fact, fact, rule refl)

lemma split_on_notin: "c \<notin> set s \<Longrightarrow> split_on c s = [s]"
  by (induction s) auto

lemma split_on_append: "c \<notin> set a \<Longrightarrow> split_on c (a @ c # b) = a # split_on c b"
  by (induction a) auto

lemma viz_of_match_fields:
  assumes "CHR '':'' \<notin> set f1" "CHR '':'' \<notin> set f2" "CHR '':'' \<notin> set f3"
  shows "viz_of_match pd (''[VIZ:'' @ f1 @ CHR '':'' # f2 @ CHR '':'' # f3 @ '']'') =
           [\<lparr>viz_type = ''chart'', viz_chartType = f1, viz_title = f2, viz_description = f3,
             viz_data = generateVisualizationData f1 pd,
             viz_config = generateVisualizationConfig f1\<rparr>]"
proof -
  have "slice_to_last 5 (''[VIZ:'' @ f1 @ CHR '':'' # f2 @ CHR '':'' # f3 @ '']'') =
          f1 @ CHR '':'' # f2 @ CHR '':'' # f3"
    by (simp add: slice_to_last_def butlast_append)
  moreover have "split_on CHR '':'' (f1 @ CHR '':'' # f2 @ CHR '':'' # f3) = [f1, f2, f3]"
    using assms by (simp add: split_on_append split_on_notin)
  ultimately show ?thesis
    by (simp add: viz_of_match_def)
qed

lemmas parse_eval = parseAIResponse_def Let_def cleanText_def match_all_def remove_all_def
  viz_re_def table_re_def viz_strip_re_def table_strip_re_def viz_of_match_def
  table_of_match_def slice_to_last_def trim_def is_space_def

text \<open>No match of a pattern that opens with \<^verbatim>\<open>[VIZ:\<close> starts before the first such opener.\<close>

lemma no_opener_before:
  assumes "\<not> sublist ''[VIZ:'' pre" and "suffix u pre" and "u \<noteq> []"
  shows "\<not> prefix ''[VIZ:'' (u @ CHR ''['' # rest)"
proof
  assume p: "prefix ''[VIZ:'' (u @ CHR ''['' # rest)"
  show False
  proof (cases "length u < 5")
    case True
    then have "\<not> prefix ''[VIZ:'' u"
      by (auto dest: prefix_length_le)
    with p obtain us where w: "''[VIZ:'' = u @ us" and us: "prefix us (CHR ''['' # rest)"
      by (auto simp: prefix_append)
    have "us \<noteq> []"
      using w True by auto
    with us obtain us' where "us = CHR ''['' # us'"
      by (cases us) auto
    with w assms(3) obtain a u' where "''[VIZ:'' = a # u' @ CHR ''['' # us'"
      by (cases u) auto
    then have "CHR ''['' \<in> set ''VIZ:''"
      by (metis list.inject in_set_conv_decomp)
    then show False by simp
  next
    case False
    from p consider "prefix ''[VIZ:'' u"
      | us where "''[VIZ:'' = u @ us" and "prefix us (CHR ''['' # rest)"
      by (auto simp: prefix_append)
    then have "prefix ''[VIZ:'' u"
    proof cases
      case 1
      then show ?thesis .
    next
      case 2
      then have "length ''[VIZ:'' = length u + length us"
        by (metis length_append)
      with False have "us = []" by (simp add: eval_nat_numeral)
      with 2 show ?thesis by simp
    qed
    then have "sublist ''[VIZ:'' pre"
      using assms(2) by (auto simp: prefix_def suffix_def sublist_def)
    with assms(1) show False ..
  qed
qed

subsection \<open>Where a match can begin and end\<close>

lemma rep_suffix: "(q, t) \<in> set (rep p m n prev s) \<Longrightarrow> suffix t s"
proof (induction s arbitrary: m n prev)
  case Nil
  then show ?case by (auto split: if_splits)
next
  case (Cons a s)
  then show ?case
    by (auto split: if_splits intro: suffix_ConsI)
qed

lemma rx_match_suffix: "(q, t) \<in> set (rx_match r (prev, s)) \<Longrightarrow> suffix t s"
proof (induction r arbitrary: prev s q t)
  case Eps
  then show ?case by simp
next
  case (Sym p)
  then show ?case by (auto split: list.splits if_splits intro: suffix_ConsI)
next
  case (Rep p m n)
  then show ?case by (auto dest: rep_suffix)
next
  case WordB
  then show ?case by (auto split: if_splits)
next
  case (Seq a b)
  from Seq.prems obtain q' t' where "(q', t') \<in> set (rx_match a (prev, s))"
    and "(q, t) \<in> set (rx_match b (q', t'))"
    by auto
  then show ?case
    using Seq.IH by (blast intro: suffix_order.trans)
next
  case (Alt a b)
  then show ?case by auto
qed

lemma sym_needs: "\<forall>st. rx_match (Sym ((=) c)) st \<noteq> [] \<longrightarrow> c \<in> set (snd st)"
  by (auto split: list.splits if_splits)

lemma seq_needs:
  assumes "\<forall>st. rx_match b st \<noteq> [] \<longrightarrow> c \<in> set (snd st)"
  shows "\<forall>st. rx_match (Seq a b) st \<noteq> [] \<longrightarrow> c \<in> set (snd st)"
proof (intro allI impI)
  fix st :: rx_state
  assume "rx_match (Seq a b) st \<noteq> []"
  then obtain st' where 1: "st' \<in> set (rx_match a st)" and 2: "rx_match b st' \<noteq> []"
    by auto
  from 1 have "suffix (snd st') (snd st)"
    using rx_match_suffix [of "fst st'" "snd st'" a "fst st" "snd st"] by simp
  moreover from 2 assms have "c \<in> set (snd st')" by blast
  ultimately show "c \<in> set (snd st)"
    by (auto simp: suffix_def)
qed

lemma rx_scan_no_match:
  assumes "\<And>p u. suffix u s \<Longrightarrow> rx_match r (p, u) = []"
  shows "rx_scan r prev s = map Keep s"
  using assms
proof (induction s arbitrary: prev)
  case Nil
  then show ?case by simp
next
  case (Cons a s)
  have "rx_match r (prev, a # s) = []"
    by (rule Cons.prems) simp
  moreover have "rx_scan r (Some a) s = map Keep s"
    by (rule Cons.IH) (simp add: Cons.prems suffix_ConsI)
  ultimately show ?case by simp
qed

lemma dropWhile_keeps:
  assumes "t \<noteq> []" and "\<not> P (hd t)"
  shows "\<exists>ps'. dropWhile P (ps @ t @ ss) = ps' @ t @ ss"
proof (induction ps)
  case Nil
  obtain a t' where "t = a # t'" using assms(1) by (cases t) auto
  then show ?case using assms(2) by (intro exI [of _ "[]"]) simp
next
  case (Cons x ps)
  then show ?case
    by (cases "P x") (auto intro: exI [of _ "x # ps"])
qed

lemma sublist_trim:
  assumes "sublist t s" and "t \<noteq> []" and "\<not> is_space (hd t)" and "\<not> is_space (last t)"
  shows "sublist t (trim s)"
proof -
  obtain ps ss where s: "s = ps @ t @ ss"
    using assms(1) by (auto simp: sublist_def)
  obtain ps' where 1: "dropWhile is_space (ps @ t @ ss) = ps' @ t @ ss"
    using dropWhile_keeps [of t is_space ps ss] assms(2,3) by blast
  have "rev t \<noteq> []" and "\<not> is_space (hd (rev t))"
    using assms(2,4) by (simp_all add: hd_rev)
  then obtain ss' where 2: "dropWhile is_space (rev ss @ rev t @ rev ps') = ss' @ rev t @ rev ps'"
    using dropWhile_keeps [of "rev t" is_space "rev ss" "rev ps'"] by blast
  have "trim s = ps' @ t @ rev ss'"
    unfolding trim_def s 1 using 2 by simp
  then show ?thesis
    by (auto simp: sublist_def)
qed

lemma strip_shape:
  assumes "w \<noteq> []"
  shows "(rx_match (Seq (lit w) (Seq (Rep (\<lambda>c. c \<noteq> CHR '']'') 1 None) (Sym ((=) CHR '']'')))) (p, u) \<noteq> []) =
         (\<exists>body rest. u = w @ body @ CHR '']'' # rest \<and> body \<noteq> [] \<and> CHR '']'' \<notin> set body)"
    (is "?L = ?R")
proof
  let ?re = "Seq (Rep (\<lambda>c. c \<noteq> CHR '']'') 1 None) (Sym ((=) CHR '']''))"
  let ?x = "drop (length w) u"
  assume ?L
  then have x: "(if prefix w u then rx_match ?re (Some (last w), ?x) else []) \<noteq> []"
    unfolding lit_match [OF assms] .
  then have pre: "prefix w u"
    by (cases "prefix w u") simp_all
  with x have y: "rx_match ?re (Some (last w), ?x) \<noteq> []"
    by (simp del: rx_match.simps)
  have "rx_match ?re (Some (last w), ?x) =
          (case dropWhile (\<lambda>c. c \<noteq> CHR '']'') ?x of
              [] \<Rightarrow> []
            | c # rest \<Rightarrow> if c = CHR '']'' \<and> 1 \<le> length (takeWhile (\<lambda>c. c \<noteq> CHR '']'') ?x)
                then [(Some CHR '']'', rest)] else [])"
    by (rule seq_rep_sym_last) simp
  with y have "(case dropWhile (\<lambda>c. c \<noteq> CHR '']'') ?x of
              [] \<Rightarrow> []
            | c # rest \<Rightarrow> if c = CHR '']'' \<and> 1 \<le> length (takeWhile (\<lambda>c. c \<noteq> CHR '']'') ?x)
                then [(Some CHR '']'', rest)] else []) \<noteq> []"
    by (simp del: rx_match.simps)
  then obtain rest where d: "dropWhile (\<lambda>c. c \<noteq> CHR '']'') ?x = CHR '']'' # rest"
    and t: "1 \<le> length (takeWhile (\<lambda>c. c \<noteq> CHR '']'') ?x)"
    by (auto split: list.splits if_splits)
  have "?x = takeWhile (\<lambda>c. c \<noteq> CHR '']'') ?x @ CHR '']'' # rest"
    using d takeWhile_dropWhile_id [of "\<lambda>c. c \<noteq> CHR '']''" ?x] by simp
  moreover have "u = w @ ?x"
    using pre by (auto simp: prefix_def)
  moreover have "CHR '']'' \<notin> set (takeWhile (\<lambda>c. c \<noteq> CHR '']'') ?x)"
    by (auto dest: set_takeWhileD)
  moreover have "takeWhile (\<lambda>c. c \<noteq> CHR '']'') ?x \<noteq> []"
    using t by auto
  ultimately show ?R
    by metis
next
  assume ?R
  then obtain body rest where u: "u = w @ body @ CHR '']'' # rest"
    and b: "body \<noteq> []" "CHR '']'' \<notin> set body"
    by blast
  have "rx_match (Seq (lit w) (Seq (Rep (\<lambda>c. c \<noteq> CHR '']'') 1 None) (Sym ((=) CHR '']''))))
          (p, w @ body @ CHR '']'' # rest) = [(Some CHR '']'', rest)]"
    using assms b by (subst lit_prefix, simp, subst field_hit_last) simp_all
  then show ?L
    unfolding u by simp
qed

lemma strip_match_shape:
  "(rx_match viz_strip_re (p, u) \<noteq> []) =
     (\<exists>body rest. u = ''[VIZ:'' @ body @ CHR '']'' # rest \<and> body \<noteq> [] \<and> CHR '']'' \<notin> set body)"
  "(rx_match table_strip_re (p, u) \<noteq> []) =
     (\<exists>body rest. u = ''[TABLE:'' @ body @ CHR '']'' # rest \<and> body \<noteq> [] \<and> CHR '']'' \<notin> set body)"
  unfolding viz_strip_re_def table_strip_re_def seqs.simps
  by (rule strip_shape, simp)+

lemma rx_test_from_suffix:
  assumes "\<not> rx_test_from r prev s" and "suffix u s"
  shows "\<exists>p. rx_match r (p, u) = []"
  using assms
proof (induction s arbitrary: prev)
  case Nil
  then show ?case by auto
next
  case (Cons a s)
  show ?case
  proof (cases "u = a # s")
    case True
    then show ?thesis using Cons.prems(1) by auto
  next
    case False
    then have "suffix u s"
      using Cons.prems(2) by (auto simp: suffix_Cons)
    moreover have "\<not> rx_test_from r (Some a) s"
      using Cons.prems(1) by simp
    ultimately show ?thesis by (rule Cons.IH [rotated])
  qed
qed

lemma trim_infix: "\<exists>a b. s = a @ trim s @ b"
proof -
  let ?m = "dropWhile is_space s"
  have "s = takeWhile is_space s @ ?m"
    by simp
  moreover have "rev ?m = takeWhile is_space (rev ?m) @ dropWhile is_space (rev ?m)"
    by simp
  then have "?m = trim s @ rev (takeWhile is_space (rev ?m))"
    unfolding trim_def by (metis rev_append rev_rev_ident)
  ultimately show ?thesis by metis
qed

lemma trim_idem: "trim (trim s) = trim s"
proof -
  let ?m = "dropWhile is_space s"
  let ?t = "rev (dropWhile is_space (rev ?m))"
  have "dropWhile is_space ?t = ?t"
  proof (cases "?t = []")
    case True
    show ?thesis by (simp only: True dropWhile.simps)
  next
    case False
    have "rev ?m = takeWhile is_space (rev ?m) @ dropWhile is_space (rev ?m)"
      by simp
    then have m: "?m = ?t @ rev (takeWhile is_space (rev ?m))"
      by (metis rev_append rev_rev_ident)
    then have "hd ?m = hd ?t"
      using False by (metis hd_append2)
    moreover have "?m \<noteq> []"
    proof
      assume "?m = []"
      then have "?t = []" by (simp only: rev.simps dropWhile.simps)
      with False show False ..
    qed
    then have "\<not> is_space (hd ?m)"
      by (rule hd_dropWhile)
    ultimately show ?thesis
      using False by (simp add: dropWhile_eq_self_iff)
  qed
  then show ?thesis
    by (simp add: trim_def)
qed

subsection \<open>Texts free of an opener\<close>

lemma free_of_suffix:
  assumes "free_of w s" and "suffix u s" and "u \<noteq> []"
  shows "\<not> prefix w (u @ rest)"
  using assms
proof (induction s)
  case Nil
  then show ?case by simp
next
  case (Cons c cs)
  show ?case
  proof (cases "u = c # cs")
    case True
    have "\<not> prefix (c # cs) w" and "\<not> prefix w (c # cs)"
      using Cons.prems(1) by simp_all
    moreover have "prefix w ((c # cs) @ rest) \<Longrightarrow> prefix w (c # cs) \<or> prefix (c # cs) w"
      unfolding prefix_append by auto
    ultimately show ?thesis
      unfolding True by blast
  next
    case False
    then have "suffix u cs"
      using Cons.prems(2) by (auto simp: suffix_Cons)
    then show ?thesis
      using Cons by simp
  qed
qed

lemma free_of_append:
  assumes "free_of w a" and "free_of w b"
  shows "free_of w (a @ b)"
  using assms(1)
proof (induction a)
  case Nil
  then show ?case using assms(2) by simp
next
  case (Cons c cs)
  have "\<not> prefix w ((c # cs) @ b)"
    using free_of_suffix [OF Cons.prems, of "c # cs" b] by simp
  moreover have "\<not> prefix ((c # cs) @ b) w"
    using Cons.prems by (auto simp: prefix_def)
  ultimately show ?case
    using Cons by simp
qed

lemma free_of_no_head: "c \<notin> set s \<Longrightarrow> free_of (c # w) s"
  by (induction s) auto

text \<open>Each pattern opens with its literal.\<close>

lemma opener:
  "rx_match viz_re (p, x) \<noteq> [] \<Longrightarrow> prefix ''[VIZ:'' x"
  "rx_match viz_strip_re (p, x) \<noteq> [] \<Longrightarrow> prefix ''[VIZ:'' x"
  "rx_match table_re (p, x) \<noteq> [] \<Longrightarrow> prefix ''[TABLE:'' x"
  "rx_match table_strip_re (p, x) \<noteq> [] \<Longrightarrow> prefix ''[TABLE:'' x"
  unfolding viz_re_def viz_strip_re_def table_re_def table_strip_re_def seqs.simps
  by (subst (asm) lit_match, simp, simp split: if_splits del: rx_match.simps)+

lemma rx_scan_free:
  assumes "\<And>p x. rx_match r (p, x) \<noteq> [] \<Longrightarrow> prefix w x" and "free_of w s"
  shows "rx_scan r prev (s @ rest) =
           map Keep s @ rx_scan r (if s = [] then prev else Some (last s)) rest"
proof (rule rx_scan_skip_prefix)
  fix u p
  assume "suffix u s" and "u \<noteq> []"
  then have "\<not> prefix w (u @ rest)"
    using assms(2) by (intro free_of_suffix)
  then show "rx_match r (p, u @ rest) = []"
    using assms(1) by blast
qed

subsection \<open>Fields of a token\<close>

lemma table_re_hit:
  assumes "f1 \<noteq> []" "CHR '':'' \<notin> set f1" "f2 \<noteq> []" "CHR '']'' \<notin> set f2"
  shows "rx_match table_re (prev, ''[TABLE:'' @ f1 @ CHR '':'' # f2 @ CHR '']'' # post)
           = [(Some CHR '']'', post)]"
  unfolding table_re_def seqs.simps
  by (subst lit_prefix, simp, subst field_hit, fact, fact, subst field_hit_last, fact, fact, rule refl)

lemma table_strip_re_hit:
  assumes "body \<noteq> []" "CHR '']'' \<notin> set body"
  shows "rx_match table_strip_re (prev, ''[TABLE:'' @ body @ CHR '']'' # post) = [(Some CHR '']'', post)]"
  unfolding table_strip_re_def seqs.simps
  by (subst lit_prefix, simp, subst field_hit_last, fact, fact, rule refl)

lemma split_on_nonempty [simp]: "split_on c s \<noteq> []"
  by (induction s) (auto split: list.splits)

lemma split_on_Cons:
  assumes "split_on c s = p # ps"
  shows "c \<notin> set p \<and> (if ps = [] then s = p else \<exists>r. s = p @ c # r \<and> split_on c r = ps)"
  using assms
proof (induction s arbitrary: p ps)
  case Nil
  then show ?case by simp
next
  case (Cons x xs)
  show ?case
  proof (cases "x = c")
    case True
    then show ?thesis using Cons.prems by auto
  next
    case False
    obtain y ys where y: "split_on c xs = y # ys"
      by (cases "split_on c xs") auto
    with False Cons.prems have p: "p = x # y" and ps: "ps = ys"
      by simp_all
    from Cons.IH [OF y] have "c \<notin> set y"
      and "if ys = [] then xs = y else \<exists>r. xs = y @ c # r \<and> split_on c r = ys"
      by simp_all
    then show ?thesis
      using False unfolding p ps by (auto split: if_splits)
  qed
qed

lemma viz_shape_fields:
  assumes "viz_shape b"
  obtains k t d where "b = k @ CHR '':'' # t @ CHR '':'' # d"
    and "k \<noteq> []" "CHR '':'' \<notin> set k" "t \<noteq> []" "CHR '':'' \<notin> set t" "d \<noteq> []"
proof -
  from assms obtain k t f fs where s: "split_on CHR '':'' b = k # t # f # fs"
    and ne: "k \<noteq> []" "t \<noteq> []" "f \<noteq> [] \<or> fs \<noteq> []"
    unfolding viz_shape_def by (auto split: list.splits)
  from split_on_Cons [OF s] obtain r where k: "CHR '':'' \<notin> set k" and b: "b = k @ CHR '':'' # r"
    and r: "split_on CHR '':'' r = t # f # fs"
    by auto
  from split_on_Cons [OF r] obtain d where t: "CHR '':'' \<notin> set t" and r1: "r = t @ CHR '':'' # d"
    and d: "split_on CHR '':'' d = f # fs"
    by auto
  have "d \<noteq> []"
    using split_on_Cons [OF d] ne(3) by (auto split: if_splits)
  moreover have "b = k @ CHR '':'' # t @ CHR '':'' # d"
    unfolding b r1 ..
  ultimately show thesis
    using ne(1,2) k t that by blast
qed

lemma table_shape_fields:
  assumes "table_shape b"
  obtains t d where "b = t @ CHR '':'' # d"
    and "t \<noteq> []" "CHR '':'' \<notin> set t" "d \<noteq> []"
proof -
  from assms obtain t f fs where s: "split_on CHR '':'' b = t # f # fs"
    and ne: "t \<noteq> []" "f \<noteq> [] \<or> fs \<noteq> []"
    unfolding table_shape_def by (auto split: list.splits)
  from split_on_Cons [OF s] obtain d where t: "CHR '':'' \<notin> set t" and b: "b = t @ CHR '':'' # d"
    and d: "split_on CHR '':'' d = f # fs"
    by auto
  have "d \<noteq> []"
    using split_on_Cons [OF d] ne(2) by (auto split: if_splits)
  then show thesis
    using ne(1) t b that by blast
qed

lemma shape_nonempty: "viz_shape b \<Longrightarrow> b \<noteq> []" "table_shape b \<Longrightarrow> b \<noteq> []"
  by (auto simp: viz_shape_def table_shape_def)

text \<open>A token of one kind is free of the opener of the other kind.\<close>

lemma table_text_free:
  assumes "CHR ''['' \<notin> set b"
  shows "free_of ''[VIZ:'' (''[TABLE:'' @ b @ '']'' @ rest) = free_of ''[VIZ:'' rest"
    and "free_of ''[VIZ:'' (''[TABLE:'' @ b @ '']'')"
proof -
  have "free_of ''[VIZ:'' (b @ '']'')"
    using assms by (intro free_of_no_head) simp
  then show "free_of ''[VIZ:'' (''[TABLE:'' @ b @ '']'')"
    by simp
  show "free_of ''[VIZ:'' (''[TABLE:'' @ b @ '']'' @ rest) = free_of ''[VIZ:'' rest"
    using assms by (induction b) auto
qed

lemma viz_text_free:
  assumes "CHR ''['' \<notin> set b"
  shows "free_of ''[TABLE:'' (''[VIZ:'' @ b @ '']'')"
proof -
  have "free_of ''[TABLE:'' (b @ '']'')"
    using assms by (intro free_of_no_head) simp
  then show ?thesis
    by simp
qed

subsection \<open>Cleaning a text in segments\<close>

lemma render_Cons [simp]: "render (seg # segs) = seg_text seg @ render segs"
  and render_Nil [simp]: "render [] = []"
  by (simp_all add: render_def)

lemma render_append [simp]: "render (a @ b) = render a @ render b"
  by (simp add: render_def)

text \<open>The first replacement removes the VIZ tokens of a segmented text, and nothing else.\<close>

lemma viz_strip_segs:
  assumes "list_all tok_ok segs"
  shows "\<exists>q. kept (rx_scan viz_strip_re prev (render segs @ rest)) =
           concat (map (\<lambda>seg. case seg of Viz b \<Rightarrow> [] | _ \<Rightarrow> seg_text seg) segs) @
           kept (rx_scan viz_strip_re q rest)"
  using assms
proof (induction segs arbitrary: prev)
  case Nil
  then show ?case by auto
next
  case (Cons seg segs)
  let ?v = "\<lambda>seg. case seg of Viz b \<Rightarrow> [] | _ \<Rightarrow> seg_text seg"
  have IH: "\<exists>q. kept (rx_scan viz_strip_re p (render segs @ rest)) =
           concat (map ?v segs) @ kept (rx_scan viz_strip_re q rest)" for p
    using Cons by simp
  show ?case
  proof (cases seg)
    case (Plain s)
    then have "free_of ''[VIZ:'' s"
      using Cons.prems by (simp add: plain_def)
    then have "rx_scan viz_strip_re prev (s @ (render segs @ rest)) =
        map Keep s @ rx_scan viz_strip_re (if s = [] then prev else Some (last s)) (render segs @ rest)"
      by (intro rx_scan_free [where w = "''[VIZ:''"] opener)
    then show ?thesis
      using IH [of "if s = [] then prev else Some (last s)"] unfolding Plain by auto
  next
    case (Table b)
    then have "free_of ''[VIZ:'' (''[TABLE:'' @ b @ '']'')"
      using Cons.prems by (intro table_text_free) simp
    then have "rx_scan viz_strip_re prev ((''[TABLE:'' @ b @ '']'') @ (render segs @ rest)) =
        map Keep (''[TABLE:'' @ b @ '']'') @ rx_scan viz_strip_re
          (if ''[TABLE:'' @ b @ '']'' = [] then prev else Some (last (''[TABLE:'' @ b @ '']'')))
          (render segs @ rest)"
      by (intro rx_scan_free [where w = "''[VIZ:''"] opener)
    then show ?thesis
      using IH [of "if ''[TABLE:'' @ b @ '']'' = [] then prev else Some (last (''[TABLE:'' @ b @ '']''))"]
      unfolding Table by auto
  next
    case (Viz b)
    then have b: "b \<noteq> []" "CHR '']'' \<notin> set b"
      using Cons.prems by simp_all
    have "rx_match viz_strip_re (prev, (''[VIZ:'' @ b @ '']'') @ (render segs @ rest)) =
        (Some CHR '']'', render segs @ rest) # []"
      using viz_strip_re_hit [OF b, of prev "render segs @ rest"] by simp
    then have "rx_scan viz_strip_re prev ((''[VIZ:'' @ b @ '']'') @ (render segs @ rest)) =
        Hit (''[VIZ:'' @ b @ '']'') # rx_scan viz_strip_re (Some CHR '']'') (render segs @ rest)"
      by (rule rx_scan_hit) simp
    then show ?thesis
      using IH [of "Some CHR '']''"] unfolding Viz by auto
  qed
qed

text \<open>The second replacement then removes the TABLE tokens.\<close>

lemma table_strip_segs:
  assumes "list_all tok_ok segs"
  shows "\<exists>q. kept (rx_scan table_strip_re prev
             (concat (map (\<lambda>seg. case seg of Viz b \<Rightarrow> [] | _ \<Rightarrow> seg_text seg) segs) @ rest)) =
           plain_text segs @ kept (rx_scan table_strip_re q rest)"
  using assms
proof (induction segs arbitrary: prev)
  case Nil
  then show ?case by auto
next
  case (Cons seg segs)
  let ?v = "\<lambda>seg. case seg of Viz b \<Rightarrow> [] | _ \<Rightarrow> seg_text seg"
  have IH: "\<exists>q. kept (rx_scan table_strip_re p (concat (map ?v segs) @ rest)) =
           plain_text segs @ kept (rx_scan table_strip_re q rest)" for p
    using Cons by simp
  show ?case
  proof (cases seg)
    case (Plain s)
    then have "free_of ''[TABLE:'' s"
      using Cons.prems by (simp add: plain_def)
    then have "rx_scan table_strip_re prev (s @ (concat (map ?v segs) @ rest)) =
        map Keep s @ rx_scan table_strip_re (if s = [] then prev else Some (last s))
          (concat (map ?v segs) @ rest)"
      by (intro rx_scan_free [where w = "''[TABLE:''"] opener)
    then show ?thesis
      using IH [of "if s = [] then prev else Some (last s)"] unfolding Plain by auto
  next
    case (Viz b)
    then show ?thesis
      using IH [of prev] by simp
  next
    case (Table b)
    then have b: "b \<noteq> []" "CHR '']'' \<notin> set b"
      using Cons.prems by simp_all
    have "rx_match table_strip_re (prev, (''[TABLE:'' @ b @ '']'') @ (concat (map ?v segs) @ rest)) =
        (Some CHR '']'', concat (map ?v segs) @ rest) # []"
      using table_strip_re_hit [OF b, of prev "concat (map ?v segs) @ rest"] by simp
    then have "rx_scan table_strip_re prev ((''[TABLE:'' @ b @ '']'') @ (concat (map ?v segs) @ rest)) =
        Hit (''[TABLE:'' @ b @ '']'') # rx_scan table_strip_re (Some CHR '']'') (concat (map ?v segs) @ rest)"
      by (rule rx_scan_hit) simp
    then show ?thesis
      using IH [of "Some CHR '']''"] unfolding Table by auto
  qed
qed

lemma plain_text_append [simp]: "plain_text (a @ b) = plain_text a @ plain_text b"
  by (induction a rule: plain_text.induct) simp_all

lemma wf_tok_ok: "wf_seg seg \<Longrightarrow> tok_ok seg"
  by (cases seg) (auto dest: shape_nonempty)

lemma wf_segs_tok_ok: "list_all wf_seg segs \<Longrightarrow> list_all tok_ok segs"
  by (induction segs) (auto intro: wf_tok_ok)

lemma plain_text_free:
  assumes "list_all tok_ok segs"
  shows "free_of ''[VIZ:'' (plain_text segs)" and "free_of ''[TABLE:'' (plain_text segs)"
  using assms by (induction segs rule: plain_text.induct) (auto simp: plain_def intro: free_of_append)

text \<open>No match begins in a text free of the opener, whatever follows it.\<close>

lemma no_match_append:
  assumes "\<And>p x. rx_match r (p, x) \<noteq> [] \<Longrightarrow> prefix w x"
    and "free_of w a"
    and "\<And>p u. suffix u b \<Longrightarrow> rx_match r (p, u) = []"
    and "suffix u (a @ b)"
  shows "rx_match r (p, u) = []"
proof (cases "suffix u b")
  case True
  then show ?thesis by (rule assms(3))
next
  case False
  then obtain u' where u: "u = u' @ b" and s: "suffix u' a"
    using assms(4) by (auto simp: suffix_append)
  have "u' \<noteq> []"
    using False u by auto
  then have "\<not> prefix w (u' @ b)"
    using assms(2) s by (intro free_of_suffix)
  then show ?thesis
    unfolding u using assms(1) by blast
qed

lemma no_test_suffix:
  assumes "suffix u s"
  shows "\<not> rx_test viz_strip_re s \<Longrightarrow> rx_match viz_strip_re (p, u) = []"
    and "\<not> rx_test table_strip_re s \<Longrightarrow> rx_match table_strip_re (p, u) = []"
proof -
  assume "\<not> rx_test viz_strip_re s"
  then obtain q where "rx_match viz_strip_re (q, u) = []"
    using rx_test_from_suffix [OF _ assms, of viz_strip_re None] unfolding rx_test_def by blast
  then show "rx_match viz_strip_re (p, u) = []"
    using strip_match_shape(1) [of p u] strip_match_shape(1) [of q u] by blast
next
  assume "\<not> rx_test table_strip_re s"
  then obtain q where "rx_match table_strip_re (q, u) = []"
    using rx_test_from_suffix [OF _ assms, of table_strip_re None] unfolding rx_test_def by blast
  then show "rx_match table_strip_re (p, u) = []"
    using strip_match_shape(2) [of p u] strip_match_shape(2) [of q u] by blast
qed

text \<open>A text without a match of a cleaning pattern has none after \<^verbatim>\<open>trim\<close> either.\<close>

lemma trim_no_match:
  assumes "suffix u (trim s)"
  shows "(\<And>p v. suffix v s \<Longrightarrow> rx_match viz_strip_re (p, v) = []) \<Longrightarrow>
           rx_match viz_strip_re (p, u) = []"
    and "(\<And>p v. suffix v s \<Longrightarrow> rx_match table_strip_re (p, v) = []) \<Longrightarrow>
           rx_match table_strip_re (p, u) = []"
proof -
  obtain a b where s: "s = a @ trim s @ b"
    using trim_infix by blast
  obtain c where "trim s = c @ u"
    using assms by (auto simp: suffix_def)
  then have "s = (a @ c) @ (u @ b)"
    using s by simp
  then have ext: "suffix (u @ b) s"
    unfolding suffix_def by blast
  {
    assume v: "\<And>p v. suffix v s \<Longrightarrow> rx_match viz_strip_re (p, v) = []"
    show "rx_match viz_strip_re (p, u) = []"
    proof (rule ccontr)
      assume "rx_match viz_strip_re (p, u) \<noteq> []"
      then obtain body rest where "u = ''[VIZ:'' @ body @ CHR '']'' # rest"
        and "body \<noteq> []" and "CHR '']'' \<notin> set body"
        unfolding strip_match_shape by blast
      then have "u @ b = ''[VIZ:'' @ body @ CHR '']'' # (rest @ b) \<and> body \<noteq> [] \<and>
          CHR '']'' \<notin> set body"
        by simp
      then have "rx_match viz_strip_re (p, u @ b) \<noteq> []"
        unfolding strip_match_shape by blast
      with v [OF ext] show False by simp
    qed
  }
  {
    assume t: "\<And>p v. suffix v s \<Longrightarrow> rx_match table_strip_re (p, v) = []"
    show "rx_match table_strip_re (p, u) = []"
    proof (rule ccontr)
      assume "rx_match table_strip_re (p, u) \<noteq> []"
      then obtain body rest where "u = ''[TABLE:'' @ body @ CHR '']'' # rest"
        and "body \<noteq> []" and "CHR '']'' \<notin> set body"
        unfolding strip_match_shape by blast
      then have "u @ b = ''[TABLE:'' @ body @ CHR '']'' # (rest @ b) \<and> body \<noteq> [] \<and>
          CHR '']'' \<notin> set body"
        by simp
      then have "rx_match table_strip_re (p, u @ b) \<noteq> []"
        unfolding strip_match_shape by blast
      with t [OF ext] show False by simp
    qed
  }
qed

text \<open>
  Both replacements on a segmented text, followed by a tail without a match, leave the
  plain text and the tail.
\<close>

lemma strip_segs_rest:
  assumes "list_all tok_ok segs"
    and "\<And>p u. suffix u rest \<Longrightarrow> rx_match viz_strip_re (p, u) = []"
    and "\<And>p u. suffix u rest \<Longrightarrow> rx_match table_strip_re (p, u) = []"
  shows "remove_all table_strip_re (remove_all viz_strip_re (render segs @ rest)) =
           plain_text segs @ rest"
proof -
  let ?v = "\<lambda>seg. case seg of Viz b \<Rightarrow> [] | _ \<Rightarrow> seg_text seg"
  have e: "rx_scan viz_strip_re q rest = map Keep rest"
    "rx_scan table_strip_re q rest = map Keep rest" for q
    using assms(2,3) by (simp_all add: rx_scan_no_match)
  from viz_strip_segs [OF assms(1), of None rest]
  have "remove_all viz_strip_re (render segs @ rest) = concat (map ?v segs) @ rest"
    by (auto simp: remove_all_def e)
  moreover from table_strip_segs [OF assms(1), of None rest]
  have "remove_all table_strip_re (concat (map ?v segs) @ rest) = plain_text segs @ rest"
    by (auto simp: remove_all_def e)
  ultimately show ?thesis by simp
qed

lemma cleanText_segs:
  assumes "list_all tok_ok segs"
    and "\<And>p u. suffix u rest \<Longrightarrow> rx_match viz_strip_re (p, u) = []"
    and "\<And>p u. suffix u rest \<Longrightarrow> rx_match table_strip_re (p, u) = []"
  shows "cleanText (render segs @ rest) = trim (plain_text segs @ rest)"
  unfolding cleanText_def using assms by (simp only: strip_segs_rest)

text \<open>What is left has no match of a cleaning pattern.\<close>

lemma plain_rest_no_match:
  assumes "list_all tok_ok segs"
    and "\<And>p u. suffix u rest \<Longrightarrow> rx_match viz_strip_re (p, u) = []"
    and "\<And>p u. suffix u rest \<Longrightarrow> rx_match table_strip_re (p, u) = []"
    and "suffix u (plain_text segs @ rest)"
  shows "rx_match viz_strip_re (p, u) = []" and "rx_match table_strip_re (p, u) = []"
proof -
  show "rx_match viz_strip_re (p, u) = []"
    using opener(2) plain_text_free(1) [OF assms(1)] assms(2) assms(4)
    by (rule no_match_append)
  show "rx_match table_strip_re (p, u) = []"
    using opener(4) plain_text_free(2) [OF assms(1)] assms(3) assms(4)
    by (rule no_match_append)
qed

lemma cleanText_trim_no_match:
  assumes "\<And>p u. suffix u s \<Longrightarrow> rx_match viz_strip_re (p, u) = []"
    and "\<And>p u. suffix u s \<Longrightarrow> rx_match table_strip_re (p, u) = []"
  shows "cleanText (trim s) = trim s"
proof -
  have "rx_match viz_strip_re (p, u) = []" if "suffix u (trim s)" for p u
    using that assms(1) by (rule trim_no_match(1))
  then have "rx_scan viz_strip_re None (trim s) = map Keep (trim s)"
    by (rule rx_scan_no_match)
  moreover have "rx_match table_strip_re (p, u) = []" if "suffix u (trim s)" for p u
    using that assms(2) by (rule trim_no_match(2))
  then have "rx_scan table_strip_re None (trim s) = map Keep (trim s)"
    by (rule rx_scan_no_match)
  ultimately show ?thesis
    by (simp add: cleanText_def remove_all_def trim_idem)
qed

subsection \<open>Extraction from a text of directives\<close>

lemma viz_render_append [simp]: "viz_render (a @ b) = viz_render a @ viz_render b"
  by (induction a) auto

lemma viz_scan_pairs:
  assumes "list_all gap_ok ps"
  shows "\<exists>q. hits (rx_scan viz_re prev (viz_render ps @ rest)) =
           map (\<lambda>p. ''[VIZ:'' @ snd p @ '']'') ps @ hits (rx_scan viz_re q rest)"
  using assms
proof (induction ps arbitrary: prev)
  case Nil
  then show ?case by auto
next
  case (Cons a ps)
  obtain g b where a: "a = (g, b)"
    by (cases a)
  have g: "\<not> sublist ''[VIZ:'' g" and b: "viz_shape b" and c: "CHR '']'' \<notin> set b"
    using Cons.prems by (simp_all add: a gap_ok_def)
  from b obtain k t d where body: "b = k @ CHR '':'' # t @ CHR '':'' # d"
    and f': "k \<noteq> []" "CHR '':'' \<notin> set k" "t \<noteq> []" "CHR '':'' \<notin> set t" "d \<noteq> []"
    by (rule viz_shape_fields)
  have "CHR '']'' \<notin> set d"
    using c unfolding body by simp
  note f = f' this
  let ?X = "viz_render ps @ rest"
  let ?tag = "''[VIZ:'' @ b @ '']''"
  have skip: "rx_scan viz_re prev (g @ (?tag @ ?X)) =
      map Keep g @ rx_scan viz_re (if g = [] then prev else Some (last g)) (?tag @ ?X)"
  proof (rule rx_scan_skip_prefix)
    fix u p
    assume "suffix u g" and "u \<noteq> []"
    with g have "\<not> prefix ''[VIZ:'' (u @ CHR ''['' # (''VIZ:'' @ b @ '']'' @ ?X))"
      by (rule no_opener_before)
    then have "\<not> prefix ''[VIZ:'' (u @ ?tag @ ?X)"
      by simp
    then show "rx_match viz_re (p, u @ ?tag @ ?X) = []"
      using opener(1) by blast
  qed
  have hit: "rx_match viz_re (p, ?tag @ ?X) = (Some CHR '']'', ?X) # []" for p
    using viz_re_hit [OF f, of p ?X] unfolding body by simp
  have "rx_scan viz_re p (?tag @ ?X) = Hit ?tag # rx_scan viz_re (Some CHR '']'') ?X" for p
    by (rule rx_scan_hit [OF hit]) simp
  with skip have "hits (rx_scan viz_re prev (g @ (?tag @ ?X))) =
      ?tag # hits (rx_scan viz_re (Some CHR '']'') ?X)"
    by simp
  moreover obtain q where "hits (rx_scan viz_re (Some CHR '']'') ?X) =
      map (\<lambda>p. ''[VIZ:'' @ snd p @ '']'') ps @ hits (rx_scan viz_re q rest)"
    using Cons.IH [of "Some CHR '']''"] Cons.prems by auto
  ultimately have "hits (rx_scan viz_re prev (viz_render (a # ps) @ rest)) =
      map (\<lambda>p. ''[VIZ:'' @ snd p @ '']'') (a # ps) @ hits (rx_scan viz_re q rest)"
    unfolding a by simp
  then show ?case ..
qed

lemma viz_scan_segs:
  assumes "list_all wf_seg segs"
  shows "\<exists>q. hits (rx_scan viz_re prev (render segs @ rest)) =
           viz_tags segs @ hits (rx_scan viz_re q rest)"
  using assms
proof (induction segs arbitrary: prev)
  case Nil
  then show ?case by auto
next
  case (Cons seg segs)
  let ?X = "render segs @ rest"
  have IH: "\<exists>q. hits (rx_scan viz_re p ?X) = viz_tags segs @ hits (rx_scan viz_re q rest)" for p
    using Cons by simp
  have free: "rx_scan viz_re prev (s @ ?X) =
      map Keep s @ rx_scan viz_re (if s = [] then prev else Some (last s)) ?X"
    if "free_of ''[VIZ:'' s" for s
    using that by (intro rx_scan_free [where w = "''[VIZ:''"] opener)
  show ?case
  proof (cases seg)
    case (Plain s)
    then have "free_of ''[VIZ:'' s"
      using Cons.prems by (simp add: plain_def)
    then show ?thesis
      using free [of s] IH [of "if s = [] then prev else Some (last s)"] unfolding Plain by auto
  next
    case (Table b)
    let ?t = "''[TABLE:'' @ b @ '']''"
    have "free_of ''[VIZ:'' ?t"
      using Cons.prems unfolding Table by (intro table_text_free) simp
    then show ?thesis
      using free [of ?t] IH [of "if ?t = [] then prev else Some (last ?t)"] unfolding Table by auto
  next
    case (Viz b)
    then have sh: "viz_shape b" and c: "CHR '']'' \<notin> set b"
      using Cons.prems by simp_all
    from sh obtain k t d where body: "b = k @ CHR '':'' # t @ CHR '':'' # d"
      and f': "k \<noteq> []" "CHR '':'' \<notin> set k" "t \<noteq> []" "CHR '':'' \<notin> set t" "d \<noteq> []"
      by (rule viz_shape_fields)
    have "CHR '']'' \<notin> set d"
      using c unfolding body by simp
    note f = f' this
    let ?tag = "''[VIZ:'' @ b @ '']''"
    have hit: "rx_match viz_re (prev, ?tag @ ?X) = (Some CHR '']'', ?X) # []"
      using viz_re_hit [OF f, of prev ?X] unfolding body by simp
    have "rx_scan viz_re prev (?tag @ ?X) = Hit ?tag # rx_scan viz_re (Some CHR '']'') ?X"
      by (rule rx_scan_hit [OF hit]) simp
    then show ?thesis
      using IH [of "Some CHR '']''"] unfolding Viz by auto
  qed
qed

lemma table_scan_segs:
  assumes "list_all wf_seg segs"
  shows "\<exists>q. hits (rx_scan table_re prev (render segs @ rest)) =
           table_tags segs @ hits (rx_scan table_re q rest)"
  using assms
proof (induction segs arbitrary: prev)
  case Nil
  then show ?case by auto
next
  case (Cons seg segs)
  let ?X = "render segs @ rest"
  have IH: "\<exists>q. hits (rx_scan table_re p ?X) = table_tags segs @ hits (rx_scan table_re q rest)" for p
    using Cons by simp
  have free: "rx_scan table_re prev (s @ ?X) =
      map Keep s @ rx_scan table_re (if s = [] then prev else Some (last s)) ?X"
    if "free_of ''[TABLE:'' s" for s
    using that by (intro rx_scan_free [where w = "''[TABLE:''"] opener)
  show ?case
  proof (cases seg)
    case (Plain s)
    then have "free_of ''[TABLE:'' s"
      using Cons.prems by (simp add: plain_def)
    then show ?thesis
      using free [of s] IH [of "if s = [] then prev else Some (last s)"] unfolding Plain by auto
  next
    case (Viz b)
    let ?t = "''[VIZ:'' @ b @ '']''"
    have "free_of ''[TABLE:'' ?t"
      using Cons.prems unfolding Viz by (intro viz_text_free) simp
    then show ?thesis
      using free [of ?t] IH [of "if ?t = [] then prev else Some (last ?t)"] unfolding Viz by auto
  next
    case (Table b)
    then have sh: "table_shape b" and c: "CHR '']'' \<notin> set b"
      using Cons.prems by simp_all
    from sh obtain t d where body: "b = t @ CHR '':'' # d"
      and f': "t \<noteq> []" "CHR '':'' \<notin> set t" "d \<noteq> []"
      by (rule table_shape_fields)
    have "CHR '']'' \<notin> set d"
      using c unfolding body by simp
    note f = f' this
    let ?tag = "''[TABLE:'' @ b @ '']''"
    have hit: "rx_match table_re (prev, ?tag @ ?X) = (Some CHR '']'', ?X) # []"
      using table_re_hit [OF f, of prev ?X] unfolding body by simp
    have "rx_scan table_re prev (?tag @ ?X) = Hit ?tag # rx_scan table_re (Some CHR '']'') ?X"
      by (rule rx_scan_hit [OF hit]) simp
    then show ?thesis
      using IH [of "Some CHR '']''"] unfolding Table by auto
  qed
qed

subsection \<open>What a match needs\<close>

lemma lit_needs:
  assumes "w \<noteq> []" and "\<forall>st. rx_match r st \<noteq> [] \<longrightarrow> c \<in> set (snd st)"
    and "rx_match (Seq (lit w) r) (p, u) \<noteq> []"
  shows "\<exists>v. u = w @ v \<and> c \<in> set v"
proof -
  from assms(3)
  have x: "(if prefix w u then rx_match r (Some (last w), drop (length w) u) else []) \<noteq> []"
    unfolding lit_match [OF assms(1)] .
  then have pre: "prefix w u"
    by (cases "prefix w u") simp_all
  with x have "rx_match r (Some (last w), drop (length w) u) \<noteq> []"
    by (simp del: rx_match.simps)
  then have "c \<in> set (drop (length w) u)"
    using assms(2) by fastforce
  moreover have "u = w @ drop (length w) u"
    using pre by (auto simp: prefix_def)
  ultimately show ?thesis by blast
qed

text \<open>A match of any of the four patterns has its opener and, later, a closing bracket.\<close>

lemma match_needs:
  "rx_match viz_re (p, u) \<noteq> [] \<Longrightarrow> \<exists>v. u = ''[VIZ:'' @ v \<and> CHR '']'' \<in> set v"
  "rx_match table_re (p, u) \<noteq> [] \<Longrightarrow> \<exists>v. u = ''[TABLE:'' @ v \<and> CHR '']'' \<in> set v"
  "rx_match viz_strip_re (p, u) \<noteq> [] \<Longrightarrow> \<exists>v. u = ''[VIZ:'' @ v \<and> CHR '']'' \<in> set v"
  "rx_match table_strip_re (p, u) \<noteq> [] \<Longrightarrow> \<exists>v. u = ''[TABLE:'' @ v \<and> CHR '']'' \<in> set v"
  unfolding viz_re_def table_re_def viz_strip_re_def table_strip_re_def seqs.simps
  by (erule lit_needs [rotated 2], simp, (intro seq_needs sym_needs)+)+

lemma dropWhile_after: "set v \<subseteq> set (dropWhile (\<lambda>c. c \<noteq> d) (m @ d # v))"
  by (induction m) auto

text \<open>No match begins in a text that has no closing bracket after its first colon.\<close>

lemma dead_rest:
  assumes "CHR '']'' \<notin> set (dropWhile (\<lambda>c. c \<noteq> CHR '':'') rest)" and "suffix u rest"
  shows "rx_match viz_re (p, u) = []" and "rx_match table_re (p, u) = []"
    and "rx_match viz_strip_re (p, u) = []" and "rx_match table_strip_re (p, u) = []"
proof -
  have no: False if "u = w @ CHR '':'' # v" and "CHR '']'' \<in> set v" for w v
  proof -
    obtain a where "rest = a @ u"
      using assms(2) by (auto simp: suffix_def)
    then have "rest = (a @ w) @ CHR '':'' # v"
      using that(1) by simp
    then have "set v \<subseteq> set (dropWhile (\<lambda>c. c \<noteq> CHR '':'') rest)"
      using dropWhile_after [of v "CHR '':''" "a @ w"] by simp
    with that(2) assms(1) show False by blast
  qed
  show "rx_match viz_re (p, u) = []"
    using match_needs(1) [of p u] no [of "''[VIZ''"] by auto
  show "rx_match table_re (p, u) = []"
    using match_needs(2) [of p u] no [of "''[TABLE''"] by auto
  show "rx_match viz_strip_re (p, u) = []"
    using match_needs(3) [of p u] no [of "''[VIZ''"] by auto
  show "rx_match table_strip_re (p, u) = []"
    using match_needs(4) [of p u] no [of "''[TABLE''"] by auto
qed

lemma field_needs:
  assumes "\<forall>st. rx_match r st \<noteq> [] \<longrightarrow> c \<in> set (snd st)"
    and "rx_match (Seq (Rep (\<lambda>x. x \<noteq> d) m None) (Seq (Sym ((=) d)) r)) (p, s) \<noteq> []"
  shows "c \<in> set (tl (dropWhile (\<lambda>x. x \<noteq> d) s))"
proof -
  have "rx_match (Seq (Rep (\<lambda>x. x \<noteq> d) m None) (Seq (Sym ((=) d)) r)) (p, s) =
      (case dropWhile (\<lambda>x. x \<noteq> d) s of
         [] \<Rightarrow> []
       | c' # rest \<Rightarrow> if c' = d \<and> m \<le> length (takeWhile (\<lambda>x. x \<noteq> d) s)
           then rx_match r (Some d, rest) else [])"
    by (rule seq_rep_sym) simp
  with assms(2) have "(case dropWhile (\<lambda>x. x \<noteq> d) s of
         [] \<Rightarrow> []
       | c' # rest \<Rightarrow> if c' = d \<and> m \<le> length (takeWhile (\<lambda>x. x \<noteq> d) s)
           then rx_match r (Some d, rest) else []) \<noteq> []"
    by (simp del: rx_match.simps)
  then obtain rest where "dropWhile (\<lambda>x. x \<noteq> d) s = d # rest"
    and "rx_match r (Some d, rest) \<noteq> []"
    by (auto split: list.splits if_splits simp del: rx_match.simps)
  then show ?thesis
    using assms(1) by fastforce
qed

text \<open>
  A field that has to run beyond a closing bracket finds nothing when no closing bracket
  follows the next colon.
\<close>

lemma field_dead:
  assumes "\<forall>st. rx_match r st \<noteq> [] \<longrightarrow> CHR '']'' \<in> set (snd st)"
    and "CHR '':'' \<notin> set x"
    and "CHR '']'' \<notin> set (dropWhile (\<lambda>c. c \<noteq> CHR '':'') post)"
  shows "rx_match (Seq (Rep (\<lambda>c. c \<noteq> CHR '':'') m None) (Seq (Sym ((=) CHR '':'')) r))
           (p, x @ CHR '']'' # post) = []"
proof (rule ccontr)
  assume "rx_match (Seq (Rep (\<lambda>c. c \<noteq> CHR '':'') m None) (Seq (Sym ((=) CHR '':'')) r))
           (p, x @ CHR '']'' # post) \<noteq> []"
  with assms(1)
  have "CHR '']'' \<in> set (tl (dropWhile (\<lambda>c. c \<noteq> CHR '':'') (x @ CHR '']'' # post)))"
    by (rule field_needs)
  moreover have "dropWhile (\<lambda>c. c \<noteq> CHR '':'') ((x @ '']'') @ post) =
      dropWhile (\<lambda>c. c \<noteq> CHR '':'') post"
    using assms(2) by (intro dropWhile_append2) auto
  ultimately have "CHR '']'' \<in> set (tl (dropWhile (\<lambda>c. c \<noteq> CHR '':'') post))"
    by simp
  then have "CHR '']'' \<in> set (dropWhile (\<lambda>c. c \<noteq> CHR '':'') post)"
    by (cases "dropWhile (\<lambda>c. c \<noteq> CHR '':'') post") simp_all
  with assms(3) show False ..
qed

lemma close_needs:
  "\<forall>st. rx_match (Seq (Rep (\<lambda>c. c \<noteq> CHR '']'') 1 None) (Sym ((=) CHR '']''))) st \<noteq> [] \<longrightarrow>
     CHR '']'' \<in> set (snd st)"
  "\<forall>st. rx_match (Seq (Rep (\<lambda>c. c \<noteq> CHR '':'') 1 None) (Seq (Sym ((=) CHR '':''))
          (Seq (Rep (\<lambda>c. c \<noteq> CHR '']'') 1 None) (Sym ((=) CHR '']''))))) st \<noteq> [] \<longrightarrow>
     CHR '']'' \<in> set (snd st)"
  by (intro seq_needs sym_needs)+

text \<open>
  The extraction patterns do not match a closed token whose body has not the shape of
  its kind, unless the text after it brings a colon and then a closing bracket.
\<close>

lemma viz_re_unshaped:
  assumes "\<not> viz_shape body"
    and "CHR '']'' \<notin> set (dropWhile (\<lambda>c. c \<noteq> CHR '':'') post)"
  shows "rx_match viz_re (prev, ''[VIZ:'' @ body @ CHR '']'' # post) = []"
proof -
  let ?r3 = "Seq (Rep (\<lambda>c. c \<noteq> CHR '']'') 1 None) (Sym ((=) CHR '']''))"
  let ?r2 = "Seq (Rep (\<lambda>c. c \<noteq> CHR '':'') 1 None) (Seq (Sym ((=) CHR '':'')) ?r3)"
  let ?r1 = "Seq (Rep (\<lambda>c. c \<noteq> CHR '':'') 1 None) (Seq (Sym ((=) CHR '':'')) ?r2)"
  let ?p = "Some CHR '':''"
  have start: "rx_match viz_re (prev, ''[VIZ:'' @ body @ CHR '']'' # post) =
          rx_match ?r1 (?p, body @ CHR '']'' # post)"
    unfolding viz_re_def seqs.simps by (subst lit_prefix) simp_all
  have "rx_match ?r1 (?p, body @ CHR '']'' # post) = []"
  proof (cases "CHR '':'' \<in> set body")
    case False
    with close_needs(2) show ?thesis
      using assms(2) by (intro field_dead) simp_all
  next
    case True
    then obtain a r where body: "body = a @ CHR '':'' # r" and a: "CHR '':'' \<notin> set a"
      by (auto dest: split_list_first)
    have s1: "split_on CHR '':'' body = a # split_on CHR '':'' r"
      unfolding body using a by (rule split_on_append)
    show ?thesis
    proof (cases "a = []")
      case True
      have "rx_match ?r1 (?p, CHR '':'' # (r @ CHR '']'' # post)) = []"
        by (rule field_empty)
      then show ?thesis
        unfolding body True by simp
    next
      case a_ne: False
      have step1: "rx_match ?r1 (?p, a @ CHR '':'' # (r @ CHR '']'' # post)) =
            rx_match ?r2 (?p, r @ CHR '']'' # post)"
        using a a_ne by (rule field_hit)
      have "rx_match ?r2 (?p, r @ CHR '']'' # post) = []"
      proof (cases "CHR '':'' \<in> set r")
        case False
        with close_needs(1) show ?thesis
          using assms(2) by (intro field_dead) simp_all
      next
        case True
        then obtain b d where r: "r = b @ CHR '':'' # d" and b: "CHR '':'' \<notin> set b"
          by (auto dest: split_list_first)
        have s2: "split_on CHR '':'' r = b # split_on CHR '':'' d"
          unfolding r using b by (rule split_on_append)
        show ?thesis
        proof (cases "b = []")
          case True
          have "rx_match ?r2 (?p, CHR '':'' # (d @ CHR '']'' # post)) = []"
            by (rule field_empty)
          then show ?thesis
            unfolding r True by simp
        next
          case b_ne: False
          obtain f fs where s3: "split_on CHR '':'' d = f # fs"
            by (cases "split_on CHR '':'' d") simp_all
          have "f = [] \<and> fs = []"
            using assms(1) a_ne b_ne unfolding viz_shape_def s1 s2 s3 by simp
          then have "d = []"
            using split_on_Cons [OF s3] by simp
          have "rx_match ?r2 (?p, b @ CHR '':'' # (CHR '']'' # post)) =
              rx_match ?r3 (?p, CHR '']'' # post)"
            using b b_ne by (rule field_hit)
          moreover have "rx_match ?r3 (?p, CHR '']'' # post) = []"
            by (subst seq_rep_sym_last) simp_all
          ultimately show ?thesis
            unfolding r \<open>d = []\<close> by simp
        qed
      qed
      with step1 show ?thesis
        unfolding body by simp
    qed
  qed
  then show ?thesis
    unfolding start .
qed

lemma table_re_unshaped:
  assumes "\<not> table_shape body"
    and "CHR '']'' \<notin> set (dropWhile (\<lambda>c. c \<noteq> CHR '':'') post)"
  shows "rx_match table_re (prev, ''[TABLE:'' @ body @ CHR '']'' # post) = []"
proof -
  let ?r3 = "Seq (Rep (\<lambda>c. c \<noteq> CHR '']'') 1 None) (Sym ((=) CHR '']''))"
  let ?r1 = "Seq (Rep (\<lambda>c. c \<noteq> CHR '':'') 1 None) (Seq (Sym ((=) CHR '':'')) ?r3)"
  let ?p = "Some CHR '':''"
  have start: "rx_match table_re (prev, ''[TABLE:'' @ body @ CHR '']'' # post) =
          rx_match ?r1 (?p, body @ CHR '']'' # post)"
    unfolding table_re_def seqs.simps by (subst lit_prefix) simp_all
  have "rx_match ?r1 (?p, body @ CHR '']'' # post) = []"
  proof (cases "CHR '':'' \<in> set body")
    case False
    with close_needs(1) show ?thesis
      using assms(2) by (intro field_dead) simp_all
  next
    case True
    then obtain a d where body: "body = a @ CHR '':'' # d" and a: "CHR '':'' \<notin> set a"
      by (auto dest: split_list_first)
    have s1: "split_on CHR '':'' body = a # split_on CHR '':'' d"
      unfolding body using a by (rule split_on_append)
    show ?thesis
    proof (cases "a = []")
      case True
      have "rx_match ?r1 (?p, CHR '':'' # (d @ CHR '']'' # post)) = []"
        by (rule field_empty)
      then show ?thesis
        unfolding body True by simp
    next
      case a_ne: False
      obtain f fs where s2: "split_on CHR '':'' d = f # fs"
        by (cases "split_on CHR '':'' d") simp_all
      have "f = [] \<and> fs = []"
        using assms(1) a_ne unfolding table_shape_def s1 s2 by simp
      then have "d = []"
        using split_on_Cons [OF s2] by simp
      have "rx_match ?r1 (?p, a @ CHR '':'' # (CHR '']'' # post)) =
          rx_match ?r3 (?p, CHR '']'' # post)"
        using a a_ne by (rule field_hit)
      moreover have "rx_match ?r3 (?p, CHR '']'' # post) = []"
        by (subst seq_rep_sym_last) simp_all
      ultimately show ?thesis
        unfolding body \<open>d = []\<close> by simp
    qed
  qed
  then show ?thesis
    unfolding start .
qed

text \<open>The scan over a bracketed token that does not match and the dead text after it.\<close>

lemma rx_scan_dead:
  assumes "\<And>prev c cs. c \<noteq> CHR ''['' \<Longrightarrow> rx_match r (prev, c # cs) = []"
    and "\<And>p. rx_match r (p, CHR ''['' # t @ rest) = []"
    and "CHR ''['' \<notin> set t"
    and "\<And>p u. suffix u rest \<Longrightarrow> rx_match r (p, u) = []"
  shows "rx_scan r prev (CHR ''['' # t @ rest) = map Keep (CHR ''['' # t @ rest)"
proof -
  have "rx_scan r prev (CHR ''['' # t @ rest) = Keep CHR ''['' # rx_scan r (Some CHR ''['') (t @ rest)"
    by (rule rx_scan_miss) (rule assms(2))
  also have "rx_scan r (Some CHR ''['') (t @ rest) =
      map Keep t @ rx_scan r (if t = [] then Some CHR ''['' else Some (last t)) rest"
    using assms(1,3) by (rule rx_scan_plain_prefix)
  also have "rx_scan r (if t = [] then Some CHR ''['' else Some (last t)) rest = map Keep rest"
    using assms(4) by (rule rx_scan_no_match)
  finally show ?thesis by simp
qed

text \<open>A closed token does not occur in a text without a match of its cleaning pattern.\<close>

lemma token_absent:
  assumes "body \<noteq> []" and "CHR '']'' \<notin> set body"
  shows "(\<And>p u. suffix u s \<Longrightarrow> rx_match viz_strip_re (p, u) = []) \<Longrightarrow>
           \<not> sublist (''[VIZ:'' @ body @ '']'') (trim s)"
    and "(\<And>p u. suffix u s \<Longrightarrow> rx_match table_strip_re (p, u) = []) \<Longrightarrow>
           \<not> sublist (''[TABLE:'' @ body @ '']'') (trim s)"
proof -
  obtain a b where s: "s = a @ trim s @ b"
    using trim_infix by blast
  have ext: "\<exists>z. suffix (tok @ z) s" if "sublist tok (trim s)" for tok
  proof -
    from that obtain x y where "trim s = x @ tok @ y"
      by (auto simp: sublist_def)
    then have "s = (a @ x) @ (tok @ y @ b)"
      using s by simp
    then show ?thesis
      unfolding suffix_def by blast
  qed
  {
    assume v: "\<And>p u. suffix u s \<Longrightarrow> rx_match viz_strip_re (p, u) = []"
    show "\<not> sublist (''[VIZ:'' @ body @ '']'') (trim s)"
    proof
      assume "sublist (''[VIZ:'' @ body @ '']'') (trim s)"
      then obtain z where "suffix ((''[VIZ:'' @ body @ '']'') @ z) s"
        using ext by blast
      then have "rx_match viz_strip_re (None, (''[VIZ:'' @ body @ '']'') @ z) = []"
        by (rule v)
      then show False
        using viz_strip_re_hit [OF assms, of None z] by simp
    qed
  }
  {
    assume t: "\<And>p u. suffix u s \<Longrightarrow> rx_match table_strip_re (p, u) = []"
    show "\<not> sublist (''[TABLE:'' @ body @ '']'') (trim s)"
    proof
      assume "sublist (''[TABLE:'' @ body @ '']'') (trim s)"
      then obtain z where "suffix ((''[TABLE:'' @ body @ '']'') @ z) s"
        using ext by blast
      then have "rx_match table_strip_re (None, (''[TABLE:'' @ body @ '']'') @ z) = []"
        by (rule t)
      then show False
        using table_strip_re_hit [OF assms, of None z] by simp
    qed
  }
qed

subsection \<open>Replacements that assemble no opener\<close>

lemma ends_in_iff: "ends_in w s = (\<exists>u. u \<noteq> [] \<and> suffix u s \<and> strict_prefix u w)"
proof (induction s)
  case Nil
  then show ?case by simp
next
  case (Cons c cs)
  show ?case
  proof
    assume "ends_in w (c # cs)"
    then consider "strict_prefix (c # cs) w" | "ends_in w cs"
      by auto
    then show "\<exists>u. u \<noteq> [] \<and> suffix u (c # cs) \<and> strict_prefix u w"
    proof cases
      case 1
      then show ?thesis by (intro exI [of _ "c # cs"]) simp
    next
      case 2
      then obtain u where "u \<noteq> []" "suffix u cs" "strict_prefix u w"
        using Cons by blast
      then show ?thesis by (intro exI [of _ u]) (simp add: suffix_ConsI)
    qed
  next
    assume "\<exists>u. u \<noteq> [] \<and> suffix u (c # cs) \<and> strict_prefix u w"
    then obtain u where u: "u \<noteq> []" "suffix u (c # cs)" "strict_prefix u w"
      by blast
    show "ends_in w (c # cs)"
    proof (cases "u = c # cs")
      case True
      then show ?thesis using u(3) by simp
    next
      case False
      then have "suffix u cs"
        using u(2) by (auto simp: suffix_Cons)
      then show ?thesis
        using u Cons by auto
    qed
  qed
qed

text \<open>
  One replacement leaves no match of a cleaning pattern behind, when none of the matches
  that it removes stands after the beginning of the opener: \<open>r2\<close> is the pattern of the
  replacement, with the opener \<open>w2\<close>, and \<open>r1\<close>, with the opener \<open>w1\<close>, the pattern
  looked for in the result.
\<close>

lemma no_assembly_scan:
  assumes s1: "\<And>u. M1 u = (\<exists>body rest. u = w1 @ body @ CHR '']'' # rest \<and> body \<noteq> [] \<and>
        CHR '']'' \<notin> set body)"
    and s2: "\<And>p u. (rx_match r2 (p, u) \<noteq> []) =
        (\<exists>body rest. u = w2 @ body @ CHR '']'' # rest \<and> body \<noteq> [] \<and> CHR '']'' \<notin> set body)"
    and hit: "\<And>p body rest. body \<noteq> [] \<Longrightarrow> CHR '']'' \<notin> set body \<Longrightarrow>
        rx_match r2 (p, w2 @ body @ CHR '']'' # rest) = [(Some CHR '']'', rest)]"
    and w2: "CHR '']'' \<notin> set w2"
    and w1: "w1 \<in> set ws"
  shows "(\<And>u. suffix u acc \<Longrightarrow> u \<noteq> [] \<Longrightarrow> \<not> M1 (u @ s)) \<Longrightarrow>
         (\<And>u p. suffix u s \<Longrightarrow> rx_match r2 (p, u) = [] \<Longrightarrow> \<not> M1 u) \<Longrightarrow>
         joins_ok ws acc (rx_scan r2 prev s) \<Longrightarrow>
         suffix u (acc @ kept (rx_scan r2 prev s)) \<Longrightarrow> \<not> M1 u"
proof (induction "length s" arbitrary: s acc prev rule: less_induct)
  case less
  have none: "\<not> M1 []"
    unfolding s1 by simp
  show ?case
  proof (cases s)
    case Nil
    have "rx_match r2 (prev, []) = []"
      using s2 [of prev "[]"] by simp
    then have "rx_scan r2 prev s = []"
      unfolding Nil by simp
    then have "suffix u acc"
      using less.prems(4) by simp
    then show ?thesis
      using less.prems(1) [of u] none unfolding Nil by (cases "u = []") simp_all
  next
    case (Cons c cs)
    show ?thesis
    proof (cases "rx_match r2 (prev, s) = []")
      case True
      then have scan: "rx_scan r2 prev s = Keep c # rx_scan r2 (Some c) cs"
        unfolding Cons by simp
      have "\<not> M1 u"
      proof (rule less.hyps [of cs "acc @ [c]" "Some c"])
        show "length cs < length s"
          unfolding Cons by simp
        show "\<not> M1 (v @ cs)" if "suffix v (acc @ [c])" and "v \<noteq> []" for v
        proof -
          from that obtain v0 where v: "v = v0 @ [c]" and v0: "suffix v0 acc"
            by (auto simp: suffix_append suffix_Cons)
          show ?thesis
          proof (cases "v0 = []")
            case True
            have "\<not> M1 s"
              using True \<open>rx_match r2 (prev, s) = []\<close> by (intro less.prems(2)) simp_all
            then show ?thesis
              unfolding v True Cons by simp
          next
            case False
            then have "\<not> M1 (v0 @ s)"
              using v0 by (intro less.prems(1))
            then show ?thesis
              unfolding v Cons by simp
          qed
        qed
        show "\<not> M1 v" if "suffix v cs" and "rx_match r2 (p, v) = []" for v p
          using that unfolding Cons by (intro less.prems(2) [of v p]) (simp_all add: suffix_ConsI Cons)
        show "joins_ok ws (acc @ [c]) (rx_scan r2 (Some c) cs)"
          using less.prems(3) unfolding scan by simp
        show "suffix u ((acc @ [c]) @ kept (rx_scan r2 (Some c) cs))"
          using less.prems(4) unfolding scan by simp
      qed
      then show ?thesis .
    next
      case False
      then obtain body rest where s: "s = w2 @ body @ CHR '']'' # rest"
        and body: "body \<noteq> []" "CHR '']'' \<notin> set body"
        unfolding s2 by blast
      have "rx_match r2 (prev, (w2 @ body @ '']'') @ rest) = (Some CHR '']'', rest) # []"
        using hit [OF body, of prev rest] by simp
      then have "rx_scan r2 prev ((w2 @ body @ '']'') @ rest) =
          Hit (w2 @ body @ '']'') # rx_scan r2 (Some CHR '']'') rest"
        by (rule rx_scan_hit) simp
      then have scan: "rx_scan r2 prev s = Hit (w2 @ body @ '']'') # rx_scan r2 (Some CHR '']'') rest"
        unfolding s by simp
      have ok: "\<not> ends_in w1 acc" and rest_ok: "joins_ok ws acc (rx_scan r2 (Some CHR '']'') rest)"
        using less.prems(3) w1 unfolding scan by (auto simp: list_all_iff)
      have "\<not> M1 u"
      proof (rule less.hyps [of rest acc "Some CHR '']''"])
        show "length rest < length s"
          unfolding s by simp
        show "\<not> M1 (v @ rest)" if v: "suffix v acc" "v \<noteq> []" for v
        proof
          assume "M1 (v @ rest)"
          then obtain b1 r1' where m: "v @ rest = w1 @ b1 @ CHR '']'' # r1'"
            and b1: "b1 \<noteq> []" "CHR '']'' \<notin> set b1"
            unfolding s1 by blast
          have before: "\<not> M1 (v @ s)"
            using v by (intro less.prems(1))
          show False
          proof (cases "prefix w1 v")
            case True
            then obtain v' where v': "v = w1 @ v'"
              by (auto simp: prefix_def)
            have tail: "v' @ rest = b1 @ CHR '']'' # r1'"
              using m unfolding v' by simp
            show False
            proof (cases "CHR '']'' \<in> set v'")
              case True
              then obtain x y where x: "v' = x @ CHR '']'' # y" "CHR '']'' \<notin> set x"
                by (auto dest: split_list_first)
              have "x @ CHR '']'' # (y @ rest) = b1 @ CHR '']'' # r1'"
                using tail unfolding x by simp
              then have "x = b1"
                using x(2) b1(2) by (auto simp: append_eq_append_conv2 append_eq_Cons_conv Cons_eq_append_conv)
              then have "v @ s = w1 @ x @ CHR '']'' # (y @ s) \<and> x \<noteq> [] \<and> CHR '']'' \<notin> set x"
                using b1 x unfolding v' by simp
              then have "M1 (v @ s)"
                unfolding s1 by blast
              with before show False ..
            next
              case False
              have "v @ s = w1 @ (v' @ w2 @ body) @ CHR '']'' # rest \<and> v' @ w2 @ body \<noteq> [] \<and>
                  CHR '']'' \<notin> set (v' @ w2 @ body)"
                using False w2 body unfolding v' s by simp
              then have "M1 (v @ s)"
                unfolding s1 by blast
              with before show False ..
            qed
          next
            case False
            have "prefix w1 (v @ rest)"
              unfolding m by simp
            with False have "prefix v w1" and "v \<noteq> w1"
              by (auto simp: prefix_append dest: prefix_order.antisym)
            then have "strict_prefix v w1"
              by (simp add: strict_prefix_def)
            with v have "ends_in w1 acc"
              unfolding ends_in_iff by blast
            with ok show False ..
          qed
        qed
        show "\<not> M1 v" if "suffix v rest" and "rx_match r2 (p, v) = []" for v p
        proof -
          have "suffix v s"
            using that(1) unfolding s by (auto simp: suffix_def)
          then show ?thesis
            using that(2) by (rule less.prems(2))
        qed
        show "joins_ok ws acc (rx_scan r2 (Some CHR '']'') rest)"
          by (rule rest_ok)
        show "suffix u (acc @ kept (rx_scan r2 (Some CHR '']'') rest))"
          using less.prems(4) unfolding scan by simp
      qed
      then show ?thesis .
    qed
  qed
qed

text \<open>After both replacements no match of a cleaning pattern is left.\<close>

lemma no_assembly_clean:
  assumes "no_assembly s"
    and "suffix u (remove_all table_strip_re (remove_all viz_strip_re s))"
  shows "rx_match viz_strip_re (p, u) = []" and "rx_match table_strip_re (p, u) = []"
proof -
  let ?K = "remove_all viz_strip_re s"
  let ?V = "\<lambda>u. rx_match viz_strip_re (None, u) \<noteq> []"
  let ?T = "\<lambda>u. rx_match table_strip_re (None, u) \<noteq> []"
  have j1: "joins_ok [''[VIZ:''] [] (rx_scan viz_strip_re None s)"
    and j2: "joins_ok [''[VIZ:'', ''[TABLE:''] [] (rx_scan table_strip_re None ?K)"
    using assms(1) by (simp_all add: no_assembly_def)
  have v: "rx_match viz_strip_re (p, x) = [] \<Longrightarrow> \<not> ?V x" for p x
    using strip_match_shape(1) [of p x] strip_match_shape(1) [of None x] by blast
  have t: "rx_match table_strip_re (p, x) = [] \<Longrightarrow> \<not> ?T x" for p x
    using strip_match_shape(2) [of p x] strip_match_shape(2) [of None x] by blast
  have K: "\<not> ?V x" if "suffix x ?K" for x
  proof (rule no_assembly_scan [where ?M1.0 = ?V and ?w1.0 = "''[VIZ:''" and ?r2.0 = viz_strip_re
        and ?w2.0 = "''[VIZ:''" and ws = "[''[VIZ:'']" and acc = "[]" and prev = None and s = s])
    show "?V y = (\<exists>body rest. y = ''[VIZ:'' @ body @ CHR '']'' # rest \<and> body \<noteq> [] \<and>
        CHR '']'' \<notin> set body)" for y
      by (rule strip_match_shape(1))
    show "(rx_match viz_strip_re (q, y) \<noteq> []) =
        (\<exists>body rest. y = ''[VIZ:'' @ body @ CHR '']'' # rest \<and> body \<noteq> [] \<and>
        CHR '']'' \<notin> set body)" for q y
      by (rule strip_match_shape(1))
    show "rx_match viz_strip_re (q, ''[VIZ:'' @ body @ CHR '']'' # rest) = [(Some CHR '']'', rest)]"
      if "body \<noteq> []" "CHR '']'' \<notin> set body" for q body rest
      using that by (rule viz_strip_re_hit)
    show "\<not> ?V y" if "rx_match viz_strip_re (q, y) = []" for y q
      using that by (rule v)
    show "joins_ok [''[VIZ:''] [] (rx_scan viz_strip_re None s)"
      by (rule j1)
    show "suffix x ([] @ kept (rx_scan viz_strip_re None s))"
      using that by (simp add: remove_all_def)
  qed simp_all
  have "\<not> ?V u"
  proof (rule no_assembly_scan [where ?M1.0 = ?V and ?w1.0 = "''[VIZ:''" and ?r2.0 = table_strip_re
        and ?w2.0 = "''[TABLE:''" and ws = "[''[VIZ:'', ''[TABLE:'']" and acc = "[]" and prev = None
        and s = ?K])
    show "?V y = (\<exists>body rest. y = ''[VIZ:'' @ body @ CHR '']'' # rest \<and> body \<noteq> [] \<and>
        CHR '']'' \<notin> set body)" for y
      by (rule strip_match_shape(1))
    show "(rx_match table_strip_re (q, y) \<noteq> []) =
        (\<exists>body rest. y = ''[TABLE:'' @ body @ CHR '']'' # rest \<and> body \<noteq> [] \<and>
        CHR '']'' \<notin> set body)" for q y
      by (rule strip_match_shape(2))
    show "rx_match table_strip_re (q, ''[TABLE:'' @ body @ CHR '']'' # rest) = [(Some CHR '']'', rest)]"
      if "body \<noteq> []" "CHR '']'' \<notin> set body" for q body rest
      using that by (rule table_strip_re_hit)
    show "\<not> ?V y" if "suffix y ?K" for y
      using that by (rule K)
    show "joins_ok [''[VIZ:'', ''[TABLE:''] [] (rx_scan table_strip_re None ?K)"
      by (rule j2)
    show "suffix u ([] @ kept (rx_scan table_strip_re None ?K))"
      using assms(2) by (simp add: remove_all_def)
  qed simp_all
  then show "rx_match viz_strip_re (p, u) = []"
    using strip_match_shape(1) [of p u] strip_match_shape(1) [of None u] by blast
  have "\<not> ?T u"
  proof (rule no_assembly_scan [where ?M1.0 = ?T and ?w1.0 = "''[TABLE:''" and ?r2.0 = table_strip_re
        and ?w2.0 = "''[TABLE:''" and ws = "[''[VIZ:'', ''[TABLE:'']" and acc = "[]" and prev = None
        and s = ?K])
    show "?T y = (\<exists>body rest. y = ''[TABLE:'' @ body @ CHR '']'' # rest \<and> body \<noteq> [] \<and>
        CHR '']'' \<notin> set body)" for y
      by (rule strip_match_shape(2))
    show "(rx_match table_strip_re (q, y) \<noteq> []) =
        (\<exists>body rest. y = ''[TABLE:'' @ body @ CHR '']'' # rest \<and> body \<noteq> [] \<and>
        CHR '']'' \<notin> set body)" for q y
      by (rule strip_match_shape(2))
    show "rx_match table_strip_re (q, ''[TABLE:'' @ body @ CHR '']'' # rest) = [(Some CHR '']'', rest)]"
      if "body \<noteq> []" "CHR '']'' \<notin> set body" for q body rest
      using that by (rule table_strip_re_hit)
    show "\<not> ?T y" if "rx_match table_strip_re (q, y) = []" for y q
      using that by (rule t)
    show "joins_ok [''[VIZ:'', ''[TABLE:''] [] (rx_scan table_strip_re None ?K)"
      by (rule j2)
    show "suffix u ([] @ kept (rx_scan table_strip_re None ?K))"
      using assms(2) by (simp add: remove_all_def)
  qed simp_all
  then show "rx_match table_strip_re (p, u) = []"
    using strip_match_shape(2) [of p u] strip_match_shape(2) [of None u] by blast
qed

lemma no_assembly_idem:
  assumes "no_assembly s"
  shows "cleanText (cleanText s) = cleanText s"
proof -
  let ?R = "remove_all table_strip_re (remove_all viz_strip_re s)"
  have "cleanText (trim ?R) = trim ?R"
    using assms by (intro cleanText_trim_no_match no_assembly_clean)
  then show ?thesis
    by (simp add: cleanText_def)
qed

lemma no_assembly_absent:
  assumes "no_assembly s" and "body \<noteq> []" and "CHR '']'' \<notin> set body"
  shows "\<not> sublist (''[VIZ:'' @ body @ '']'') (cleanText s)"
    and "\<not> sublist (''[TABLE:'' @ body @ '']'') (cleanText s)"
proof -
  let ?R = "remove_all table_strip_re (remove_all viz_strip_re s)"
  have v: "rx_match viz_strip_re (p, u) = []" if "suffix u ?R" for p u
    using assms(1) that by (rule no_assembly_clean(1))
  have t: "rx_match table_strip_re (p, u) = []" if "suffix u ?R" for p u
    using assms(1) that by (rule no_assembly_clean(2))
  show "\<not> sublist (''[VIZ:'' @ body @ '']'') (cleanText s)"
    unfolding cleanText_def using assms(2,3) v by (rule token_absent(1))
  show "\<not> sublist (''[TABLE:'' @ body @ '']'') (cleanText s)"
    unfolding cleanText_def using assms(2,3) t by (rule token_absent(2))
qed

subsection \<open>A tail without a closing bracket\<close>

text \<open>
  A match of one of the four patterns ends in a closing bracket. So a tail without a
  closing bracket changes nothing for the matches in the text before it: the matcher
  finds the same matches, in the same order.
\<close>

lemma tail_close:
  assumes "CHR '']'' \<notin> set rest"
  shows "rx_match (Seq (Rep (\<lambda>c. c \<noteq> CHR '']'') m None) (Sym ((=) CHR '']''))) (p, u @ rest) =
           map (\<lambda>(q, t). (q, t @ rest))
             (rx_match (Seq (Rep (\<lambda>c. c \<noteq> CHR '']'') m None) (Sym ((=) CHR '']''))) (p, u))"
proof (cases "CHR '']'' \<in> set u")
  case True
  then obtain a b where u: "u = a @ CHR '']'' # b" and a: "CHR '']'' \<notin> set a"
    by (auto dest: split_list_first)
  have d: "dropWhile (\<lambda>c. c \<noteq> CHR '']'') (a @ CHR '']'' # x) = CHR '']'' # x" for x
    using a by (auto simp: dropWhile_append3)
  have t: "takeWhile (\<lambda>c. c \<noteq> CHR '']'') (a @ CHR '']'' # x) = a" for x
    using a by (auto simp: takeWhile_tail)
  have "rx_match (Seq (Rep (\<lambda>c. c \<noteq> CHR '']'') m None) (Sym ((=) CHR '']'')))
          (p, a @ CHR '']'' # x) = (if m \<le> length a then [(Some CHR '']'', x)] else [])" for x
    by (subst seq_rep_sym_last) (simp_all add: d t)
  from this [of b] this [of "b @ rest"] show ?thesis
    unfolding u by simp
next
  case False
  then have d: "dropWhile (\<lambda>c. c \<noteq> CHR '']'') (u @ rest) = []"
    and e: "dropWhile (\<lambda>c. c \<noteq> CHR '']'') u = []"
    using assms by auto
  show ?thesis
    by (subst (1 2) seq_rep_sym_last) (simp_all add: d e)
qed

lemma tail_field:
  assumes "CHR '']'' \<notin> set rest"
    and "\<forall>st. rx_match r st \<noteq> [] \<longrightarrow> CHR '']'' \<in> set (snd st)"
    and "\<And>p u. rx_match r (p, u @ rest) = map (\<lambda>(q, t). (q, t @ rest)) (rx_match r (p, u))"
  shows "rx_match (Seq (Rep (\<lambda>c. c \<noteq> CHR '':'') m None) (Seq (Sym ((=) CHR '':'')) r)) (p, u @ rest) =
           map (\<lambda>(q, t). (q, t @ rest))
             (rx_match (Seq (Rep (\<lambda>c. c \<noteq> CHR '':'') m None) (Seq (Sym ((=) CHR '':'')) r)) (p, u))"
proof (cases "CHR '':'' \<in> set u")
  case True
  then obtain a b where u: "u = a @ CHR '':'' # b" and a: "CHR '':'' \<notin> set a"
    by (auto dest: split_list_first)
  have d: "dropWhile (\<lambda>c. c \<noteq> CHR '':'') (a @ CHR '':'' # x) = CHR '':'' # x" for x
    using a by (auto simp: dropWhile_append3)
  have t: "takeWhile (\<lambda>c. c \<noteq> CHR '':'') (a @ CHR '':'' # x) = a" for x
    using a by (auto simp: takeWhile_tail)
  have "rx_match (Seq (Rep (\<lambda>c. c \<noteq> CHR '':'') m None) (Seq (Sym ((=) CHR '':'')) r))
          (q, a @ CHR '':'' # x) = (if m \<le> length a then rx_match r (Some CHR '':'', x) else [])"
    for q x
    by (subst seq_rep_sym) (simp_all add: d t del: rx_match.simps)
  from this [of p b] this [of p "b @ rest"] show ?thesis
    unfolding u by (simp add: assms(3) del: rx_match.simps)
next
  case False
  then have e: "dropWhile (\<lambda>c. c \<noteq> CHR '':'') u = []"
    by auto
  have d: "dropWhile (\<lambda>c. c \<noteq> CHR '':'') (u @ rest) = dropWhile (\<lambda>c. c \<noteq> CHR '':'') rest"
    using False by (intro dropWhile_append2) auto
  have "rx_match r (q, x) = []" if "dropWhile (\<lambda>c. c \<noteq> CHR '':'') rest = c # x" for q c x
  proof -
    have "set x \<subseteq> set rest"
      using set_dropWhileD [of _ "\<lambda>c. c \<noteq> CHR '':''" rest] unfolding that by auto
    then have "CHR '']'' \<notin> set x"
      using assms(1) by auto
    then show ?thesis
      using assms(2) by fastforce
  qed
  then show ?thesis
    by (subst (1 2) seq_rep_sym) (simp_all add: d e split: list.splits del: rx_match.simps)
qed

lemma tail_lit:
  assumes "CHR '']'' \<notin> set rest" and "w \<noteq> []"
    and "\<forall>st. rx_match r st \<noteq> [] \<longrightarrow> CHR '']'' \<in> set (snd st)"
    and "\<And>p u. rx_match r (p, u @ rest) = map (\<lambda>(q, t). (q, t @ rest)) (rx_match r (p, u))"
  shows "rx_match (Seq (lit w) r) (p, u @ rest) =
           map (\<lambda>(q, t). (q, t @ rest)) (rx_match (Seq (lit w) r) (p, u))"
proof (cases "prefix w u")
  case True
  then have "prefix w (u @ rest)" and "drop (length w) (u @ rest) = drop (length w) u @ rest"
    by (auto simp: prefix_def)
  then show ?thesis
    using True by (simp add: lit_match [OF assms(2)] assms(4) del: rx_match.simps)
next
  case False
  have "rx_match r (q, drop (length w) (u @ rest)) = []" if "prefix w (u @ rest)" for q
  proof -
    have "prefix w u \<or> (\<exists>us. w = u @ us \<and> prefix us rest)"
      using that by (simp add: prefix_append)
    with False obtain us where "w = u @ us"
      by blast
    then have "drop (length w) (u @ rest) = drop (length us) rest"
      by simp
    then have "set (drop (length w) (u @ rest)) \<subseteq> set rest"
      by (auto dest: in_set_dropD)
    then have "CHR '']'' \<notin> set (drop (length w) (u @ rest))"
      using assms(1) by auto
    then show ?thesis
      using assms(3) by fastforce
  qed
  then show ?thesis
    using False by (simp add: lit_match [OF assms(2)] del: rx_match.simps)
qed

lemma tail_match:
  assumes "CHR '']'' \<notin> set rest"
  shows "rx_match viz_re (p, u @ rest) = map (\<lambda>(q, t). (q, t @ rest)) (rx_match viz_re (p, u))"
    and "rx_match table_re (p, u @ rest) = map (\<lambda>(q, t). (q, t @ rest)) (rx_match table_re (p, u))"
    and "rx_match viz_strip_re (p, u @ rest) =
           map (\<lambda>(q, t). (q, t @ rest)) (rx_match viz_strip_re (p, u))"
    and "rx_match table_strip_re (p, u @ rest) =
           map (\<lambda>(q, t). (q, t @ rest)) (rx_match table_strip_re (p, u))"
  unfolding viz_re_def table_re_def viz_strip_re_def table_strip_re_def seqs.simps
  by (intro tail_lit tail_field tail_close assms seq_needs sym_needs; simp)+

text \<open>The scan of a text with such a tail is the scan of the text, and the tail is kept.\<close>

lemma rx_scan_tail:
  assumes "\<And>p u. rx_match r (p, u @ rest) = map (\<lambda>(q, t). (q, t @ rest)) (rx_match r (p, u))"
    and "\<And>p u. suffix u rest \<Longrightarrow> rx_match r (p, u) = []"
  shows "rx_scan r prev (pre @ rest) = rx_scan r prev pre @ map Keep rest"
proof (induction "length pre" arbitrary: pre prev rule: less_induct)
  case less
  show ?case
  proof (cases pre)
    case Nil
    have "rx_match r (prev, []) = []"
      using assms(1) [of prev "[]"] assms(2) [of rest prev] by simp
    moreover have "rx_scan r prev rest = map Keep rest"
      using assms(2) by (rule rx_scan_no_match)
    ultimately show ?thesis
      unfolding Nil by simp
  next
    case (Cons c cs)
    have m: "rx_match r (prev, c # cs @ rest) =
        map (\<lambda>(q, t). (q, t @ rest)) (rx_match r (prev, c # cs))"
      using assms(1) [of prev "c # cs"] by simp
    have keep: "rx_scan r (Some c) (cs @ rest) = rx_scan r (Some c) cs @ map Keep rest"
      by (rule less.hyps) (simp add: Cons)
    show ?thesis
    proof (cases "rx_match r (prev, c # cs)")
      case Nil
      then show ?thesis
        unfolding Cons using m keep by simp
    next
      case (Cons st sts)
      obtain q t where st: "st = (q, t)"
        by (cases st)
      have "suffix t (c # cs)"
        using rx_match_suffix [of q t r prev "c # cs"] unfolding Cons st by simp
      then have len: "length t \<le> Suc (length cs)"
        by (auto dest: suffix_length_le)
      show ?thesis
      proof (cases "length t < Suc (length cs)")
        case True
        then have "rx_scan r q (t @ rest) = rx_scan r q t @ map Keep rest"
          by (intro less.hyps) (simp add: \<open>pre = c # cs\<close>)
        moreover have "take (Suc (length cs) - length t) ((c # cs) @ rest) =
            take (Suc (length cs) - length t) (c # cs)"
          by (subst take_append) simp
        ultimately show ?thesis
          unfolding \<open>pre = c # cs\<close> using m True Cons st by simp
      next
        case False
        then show ?thesis
          unfolding \<open>pre = c # cs\<close> using m keep Cons st by simp
      qed
    qed
  qed
qed

lemma scan_tail:
  assumes "CHR '']'' \<notin> set rest"
  shows "rx_scan viz_re prev (pre @ rest) = rx_scan viz_re prev pre @ map Keep rest"
    and "rx_scan table_re prev (pre @ rest) = rx_scan table_re prev pre @ map Keep rest"
    and "rx_scan viz_strip_re prev (pre @ rest) = rx_scan viz_strip_re prev pre @ map Keep rest"
    and "rx_scan table_strip_re prev (pre @ rest) = rx_scan table_strip_re prev pre @ map Keep rest"
proof -
  have dead: "CHR '']'' \<notin> set (dropWhile (\<lambda>c. c \<noteq> CHR '':'') rest)"
    using assms by (auto dest: set_dropWhileD)
  show "rx_scan viz_re prev (pre @ rest) = rx_scan viz_re prev pre @ map Keep rest"
    using tail_match(1) [OF assms] dead_rest(1) [OF dead] by (rule rx_scan_tail)
  show "rx_scan table_re prev (pre @ rest) = rx_scan table_re prev pre @ map Keep rest"
    using tail_match(2) [OF assms] dead_rest(2) [OF dead] by (rule rx_scan_tail)
  show "rx_scan viz_strip_re prev (pre @ rest) = rx_scan viz_strip_re prev pre @ map Keep rest"
    using tail_match(3) [OF assms] dead_rest(3) [OF dead] by (rule rx_scan_tail)
  show "rx_scan table_strip_re prev (pre @ rest) = rx_scan table_strip_re prev pre @ map Keep rest"
    using tail_match(4) [OF assms] dead_rest(4) [OF dead] by (rule rx_scan_tail)
qed

lemma parse_tail:
  assumes "CHR '']'' \<notin> set rest"
  shows "parseAIResponse (pre @ rest) pd =
     \<lparr>content = trim (remove_all table_strip_re (remove_all viz_strip_re pre) @ rest),
      visualizations = visualizations (parseAIResponse pre pd),
      tables = tables (parseAIResponse pre pd),
      confidence = 0.85,
      sources = (case pd of None \<Rightarrow> [] | Some p \<Rightarrow> [pf_type p])\<rparr>"
  by (simp add: parseAIResponse_def Let_def cleanText_def match_all_def remove_all_def
      scan_tail [OF assms])

subsection \<open>The visualization of a directive\<close>

lemma viz_shape_bar:
  assumes "T \<noteq> []" "D \<noteq> []" "CHR '':'' \<notin> set T" "CHR '']'' \<notin> set T"
    "CHR '':'' \<notin> set D" "CHR '']'' \<notin> set D"
  shows "viz_shape (''bar:'' @ T @ '':'' @ D)"
proof -
  have "split_on CHR '':'' (''bar'' @ CHR '':'' # (T @ CHR '':'' # D)) =
      ''bar'' # split_on CHR '':'' (T @ CHR '':'' # D)"
    by (rule split_on_append) simp
  also have "split_on CHR '':'' (T @ CHR '':'' # D) = T # split_on CHR '':'' D"
    using assms(3) by (rule split_on_append)
  also have "split_on CHR '':'' D = [D]"
    using assms(5) by (rule split_on_notin)
  finally show ?thesis
    using assms by (simp add: viz_shape_def)
qed

lemma viz_of_match_bar:
  assumes "CHR '':'' \<notin> set T" "CHR '':'' \<notin> set D"
  shows "viz_of_match pd (''[VIZ:bar:'' @ T @ '':'' @ D @ '']'') =
           [\<lparr>viz_type = ''chart'', viz_chartType = ''bar'', viz_title = T, viz_description = D,
             viz_data = generateVisualizationData ''bar'' pd,
             viz_config = generateVisualizationConfig ''bar''\<rparr>]"
  using viz_of_match_fields [of "''bar''" T D pd] assms by simp

lemma parse_fields:
  "visualizations (parseAIResponse s pd) = Some (concat (map (viz_of_match pd) (match_all viz_re s)))"
  "tables (parseAIResponse s pd) = Some (concat (map (table_of_match pd) (match_all table_re s)))"
  "content (parseAIResponse s pd) = cleanText s"
  by (simp_all add: parseAIResponse_def Let_def)

subsection \<open>The response to a text of well-formed directives and a dead end\<close>

lemma parse_segs:
  assumes "list_all wf_seg segs" and "list_all tok_ok toks"
    and "\<And>q. rx_scan viz_re q (render toks @ rest) = map Keep (render toks @ rest)"
    and "\<And>q. rx_scan table_re q (render toks @ rest) = map Keep (render toks @ rest)"
    and "\<And>p u. suffix u rest \<Longrightarrow> rx_match viz_strip_re (p, u) = []"
    and "\<And>p u. suffix u rest \<Longrightarrow> rx_match table_strip_re (p, u) = []"
  shows "parseAIResponse (render segs @ render toks @ rest) pd =
     \<lparr>content = trim (plain_text segs @ plain_text toks @ rest),
      visualizations = Some (concat (map (viz_of_match pd) (viz_tags segs))),
      tables = Some (concat (map (table_of_match pd) (table_tags segs))),
      confidence = 0.85,
      sources = (case pd of None \<Rightarrow> [] | Some p \<Rightarrow> [pf_type p])\<rparr>"
proof -
  let ?s = "render segs @ render toks @ rest"
  obtain q where "hits (rx_scan viz_re None ?s) =
      viz_tags segs @ hits (rx_scan viz_re q (render toks @ rest))"
    using viz_scan_segs [OF assms(1)] by blast
  then have v: "match_all viz_re ?s = viz_tags segs"
    unfolding match_all_def assms(3) by simp
  obtain q' where "hits (rx_scan table_re None ?s) =
      table_tags segs @ hits (rx_scan table_re q' (render toks @ rest))"
    using table_scan_segs [OF assms(1)] by blast
  then have t: "match_all table_re ?s = table_tags segs"
    unfolding match_all_def assms(4) by simp
  have "list_all tok_ok (segs @ toks)"
    using assms(1,2) by (simp add: wf_segs_tok_ok)
  then have "cleanText (render (segs @ toks) @ rest) = trim (plain_text (segs @ toks) @ rest)"
    using assms(5,6) by (rule cleanText_segs)
  then have c: "cleanText ?s = trim (plain_text segs @ plain_text toks @ rest)"
    by simp
  show ?thesis
    unfolding parseAIResponse_def Let_def v t c ..
qed

text \<open>Neither extraction pattern matches in a malformed token and the dead text after it.\<close>

lemma malformed_scan:
  assumes "malformed tok" and "CHR '']'' \<notin> set (dropWhile (\<lambda>c. c \<noteq> CHR '':'') rest)"
  shows "rx_scan viz_re q (seg_text tok @ rest) = map Keep (seg_text tok @ rest)"
    and "rx_scan table_re q (seg_text tok @ rest) = map Keep (seg_text tok @ rest)"
proof -
  have dv: "rx_match viz_re (p, u) = []" if "suffix u rest" for p u
    using assms(2) that by (rule dead_rest(1))
  have dt: "rx_match table_re (p, u) = []" if "suffix u rest" for p u
    using assms(2) that by (rule dead_rest(2))
  have "rx_scan viz_re q (seg_text tok @ rest) = map Keep (seg_text tok @ rest) \<and>
        rx_scan table_re q (seg_text tok @ rest) = map Keep (seg_text tok @ rest)"
  proof (cases tok)
    case (Plain s)
    then show ?thesis using assms(1) by simp
  next
    case (Viz body)
    let ?t = "''VIZ:'' @ body @ '']''"
    have b: "CHR ''['' \<notin> set ?t" and few: "\<not> viz_shape body"
      using assms(1) unfolding Viz by simp_all
    have "rx_match viz_re (p, CHR ''['' # ?t @ rest) = []" for p
      using viz_re_unshaped [OF few assms(2), of p] by simp
    then have 1: "rx_scan viz_re q (CHR ''['' # ?t @ rest) = map Keep (CHR ''['' # ?t @ rest)"
      using opens_viz(1) b dv by (intro rx_scan_dead) auto
    have "rx_match table_re (p, CHR ''['' # ?t @ rest) = []" for p
      using opener(3) [of p "CHR ''['' # ?t @ rest"] by auto
    then have 2: "rx_scan table_re q (CHR ''['' # ?t @ rest) = map Keep (CHR ''['' # ?t @ rest)"
      using opens_table(1) b dt by (intro rx_scan_dead) auto
    from 1 2 show ?thesis
      unfolding Viz by simp
  next
    case (Table body)
    let ?t = "''TABLE:'' @ body @ '']''"
    have b: "CHR ''['' \<notin> set ?t" and few: "\<not> table_shape body"
      using assms(1) unfolding Table by simp_all
    have "rx_match viz_re (p, CHR ''['' # ?t @ rest) = []" for p
      using opener(1) [of p "CHR ''['' # ?t @ rest"] by auto
    then have 1: "rx_scan viz_re q (CHR ''['' # ?t @ rest) = map Keep (CHR ''['' # ?t @ rest)"
      using opens_viz(1) b dv by (intro rx_scan_dead) auto
    have "rx_match table_re (p, CHR ''['' # ?t @ rest) = []" for p
      using table_re_unshaped [OF few assms(2), of p] by simp
    then have 2: "rx_scan table_re q (CHR ''['' # ?t @ rest) = map Keep (CHR ''['' # ?t @ rest)"
      using opens_table(1) b dt by (intro rx_scan_dead) auto
    from 1 2 show ?thesis
      unfolding Table by simp
  qed
  then show "rx_scan viz_re q (seg_text tok @ rest) = map Keep (seg_text tok @ rest)"
    and "rx_scan table_re q (seg_text tok @ rest) = map Keep (seg_text tok @ rest)"
    by simp_all
qed

lemma malformed_tok_ok: "malformed tok \<Longrightarrow> tok_ok tok"
  by (cases tok) simp_all

lemma malformed_absent:
  assumes "malformed tok"
    and "\<And>p u. suffix u s \<Longrightarrow> rx_match viz_strip_re (p, u) = []"
    and "\<And>p u. suffix u s \<Longrightarrow> rx_match table_strip_re (p, u) = []"
  shows "\<not> sublist (seg_text tok) (trim s)"
proof (cases tok)
  case (Plain x)
  then show ?thesis using assms(1) by simp
next
  case (Viz body)
  then have "body \<noteq> []" "CHR '']'' \<notin> set body"
    using assms(1) by simp_all
  then have "\<not> sublist (''[VIZ:'' @ body @ '']'') (trim s)"
    using assms(2) by (rule token_absent(1))
  then show ?thesis
    unfolding Viz by simp
next
  case (Table body)
  then have "body \<noteq> []" "CHR '']'' \<notin> set body"
    using assms(1) by simp_all
  then have "\<not> sublist (''[TABLE:'' @ body @ '']'') (trim s)"
    using assms(3) by (rule token_absent(2))
  then show ?thesis
    unfolding Table by simp
qed

subsection \<open>A well-formed visualization directive\<close>

text \<open>
  C3, amended. Let \<open>T\<close> and \<open>D\<close> be not empty and contain no colon and no closing
  bracket, and let the directive be \<^verbatim>\<open>[VIZ:bar:T:D]\<close>.

  Extraction. Let the text before the directive consist of visualization directives
  (tokens \<^verbatim>\<open>[VIZ:body]\<close> whose body has the shape of a visualization directive and no
  closing bracket), each after a gap without the opener \<^verbatim>\<open>[VIZ:\<close>, and of one more such
  gap; anything may follow the directive. Then \<open>parseAIResponse\<close> extracts the
  visualizations of the earlier directives in their order and, right after them, the
  visualization with the chart type \<^verbatim>\<open>bar\<close>, the title \<open>T\<close> and the description \<open>D\<close>.

  If the text consists of well-formed segments around the directive (plain text in which
  no opener of a directive begins, and directives of either kind) and of a tail without
  a closing bracket after its first colon, the visualizations extracted are exactly
  those of its directives, in their order.

  Display. If the text consists of segments around the directive (plain text in which no
  opener of a directive begins, closed tokens \<^verbatim>\<open>[VIZ:...]\<close> and \<^verbatim>\<open>[TABLE:...]\<close>) and of a
  tail in which neither cleaning pattern has a match, then the displayed text is the
  plain segments and the tail, joined and trimmed, and the directive does not occur in
  it.

  In general, the directive does not occur in the displayed text of any text whose
  cleaning assembles no opener: no match that a replacement removes stands after kept
  text that ends in the beginning of an opener.
\<close>

theorem viz_directive_extracted:
  assumes "T \<noteq> []" "D \<noteq> []" "CHR '':'' \<notin> set T" "CHR '']'' \<notin> set T"
    "CHR '':'' \<notin> set D" "CHR '']'' \<notin> set D"
  shows
  "(list_all gap_ok pairs \<and> \<not> sublist ''[VIZ:'' gap \<longrightarrow>
      (\<exists>others.
        visualizations (parseAIResponse
          (viz_render pairs @ gap @ (''[VIZ:bar:'' @ T @ '':'' @ D @ '']'') @ post) pd) =
        Some (concat (map (\<lambda>p. viz_of_match pd (''[VIZ:'' @ snd p @ '']'')) pairs) @
          \<lparr>viz_type = ''chart'', viz_chartType = ''bar'', viz_title = T, viz_description = D,
            viz_data = generateVisualizationData ''bar'' pd,
            viz_config = generateVisualizationConfig ''bar''\<rparr> # others))) \<and>
   (list_all wf_seg before \<and> list_all wf_seg after \<and>
    CHR '']'' \<notin> set (dropWhile (\<lambda>c. c \<noteq> CHR '':'') rest) \<longrightarrow>
      visualizations (parseAIResponse
          (render before @ (''[VIZ:bar:'' @ T @ '':'' @ D @ '']'') @ render after @ rest) pd) =
        Some (concat (map (viz_of_match pd) (viz_tags before)) @
          \<lparr>viz_type = ''chart'', viz_chartType = ''bar'', viz_title = T, viz_description = D,
            viz_data = generateVisualizationData ''bar'' pd,
            viz_config = generateVisualizationConfig ''bar''\<rparr> #
          concat (map (viz_of_match pd) (viz_tags after)))) \<and>
   (list_all tok_ok before \<and> list_all tok_ok after \<and>
    \<not> rx_test viz_strip_re rest \<and> \<not> rx_test table_strip_re rest \<longrightarrow>
      content (parseAIResponse
          (render before @ (''[VIZ:bar:'' @ T @ '':'' @ D @ '']'') @ render after @ rest) pd) =
        trim (plain_text before @ plain_text after @ rest) \<and>
      \<not> sublist (''[VIZ:bar:'' @ T @ '':'' @ D @ '']'')
          (content (parseAIResponse
            (render before @ (''[VIZ:bar:'' @ T @ '':'' @ D @ '']'') @ render after @ rest) pd))) \<and>
   (no_assembly s \<longrightarrow>
      \<not> sublist (''[VIZ:bar:'' @ T @ '':'' @ D @ '']'') (content (parseAIResponse s pd)))"
proof (intro conjI impI)
  let ?body = "''bar:'' @ T @ '':'' @ D"
  let ?tag = "''[VIZ:bar:'' @ T @ '':'' @ D @ '']''"
  let ?spec = "\<lparr>viz_type = ''chart'', viz_chartType = ''bar'', viz_title = T, viz_description = D,
            viz_data = generateVisualizationData ''bar'' pd,
            viz_config = generateVisualizationConfig ''bar''\<rparr>"
  have body: "viz_shape ?body"
    using assms by (rule viz_shape_bar)
  have spec: "viz_of_match pd ?tag = [?spec]"
    using assms(3,5) by (rule viz_of_match_bar)
  {
    assume a: "list_all gap_ok pairs \<and> \<not> sublist ''[VIZ:'' gap"
    let ?ps = "pairs @ [(gap, ?body)]"
    have "list_all gap_ok ?ps"
      using a body assms by (simp add: gap_ok_def)
    then obtain q where "hits (rx_scan viz_re None (viz_render ?ps @ post)) =
        map (\<lambda>p. ''[VIZ:'' @ snd p @ '']'') ?ps @ hits (rx_scan viz_re q post)"
      using viz_scan_pairs by blast
    moreover have "viz_render ?ps @ post = viz_render pairs @ gap @ ?tag @ post"
      by simp
    ultimately have "match_all viz_re (viz_render pairs @ gap @ ?tag @ post) =
        map (\<lambda>p. ''[VIZ:'' @ snd p @ '']'') pairs @ ?tag # hits (rx_scan viz_re q post)"
      unfolding match_all_def by simp
    then have "visualizations (parseAIResponse (viz_render pairs @ gap @ ?tag @ post) pd) =
        Some (concat (map (\<lambda>p. viz_of_match pd (''[VIZ:'' @ snd p @ '']'')) pairs) @
          ?spec # concat (map (viz_of_match pd) (hits (rx_scan viz_re q post))))"
      unfolding parse_fields using spec by (simp add: comp_def)
    then show "\<exists>others.
        visualizations (parseAIResponse (viz_render pairs @ gap @ ?tag @ post) pd) =
        Some (concat (map (\<lambda>p. viz_of_match pd (''[VIZ:'' @ snd p @ '']'')) pairs) @
          ?spec # others)" ..
  }
  {
    assume a: "list_all wf_seg before \<and> list_all wf_seg after \<and>
      CHR '']'' \<notin> set (dropWhile (\<lambda>c. c \<noteq> CHR '':'') rest)"
    then have dead: "CHR '']'' \<notin> set (dropWhile (\<lambda>c. c \<noteq> CHR '':'') rest)"
      by simp
    let ?X = "render after @ rest"
    obtain q1 where "hits (rx_scan viz_re None (render before @ (?tag @ ?X))) =
        viz_tags before @ hits (rx_scan viz_re q1 (?tag @ ?X))"
      using a viz_scan_segs by blast
    moreover have "rx_match viz_re (q1, ?tag @ ?X) = (Some CHR '']'', ?X) # []"
      using viz_re_hit [of "''bar''" T D q1 ?X] assms by simp
    then have "rx_scan viz_re q1 (?tag @ ?X) = Hit ?tag # rx_scan viz_re (Some CHR '']'') ?X"
      by (rule rx_scan_hit) simp
    moreover obtain q2 where "hits (rx_scan viz_re (Some CHR '']'') ?X) =
        viz_tags after @ hits (rx_scan viz_re q2 rest)"
      using a viz_scan_segs by blast
    moreover have "rx_match viz_re (p, u) = []" if "suffix u rest" for p u
      using dead that by (rule dead_rest(1))
    then have "rx_scan viz_re q2 rest = map Keep rest"
      by (rule rx_scan_no_match)
    ultimately have "match_all viz_re (render before @ ?tag @ render after @ rest) =
        viz_tags before @ ?tag # viz_tags after"
      unfolding match_all_def by simp
    then show "visualizations (parseAIResponse (render before @ ?tag @ render after @ rest) pd) =
        Some (concat (map (viz_of_match pd) (viz_tags before)) @
          ?spec # concat (map (viz_of_match pd) (viz_tags after)))"
      unfolding parse_fields using spec by simp
  }
  {
    assume a: "list_all tok_ok before \<and> list_all tok_ok after \<and>
      \<not> rx_test viz_strip_re rest \<and> \<not> rx_test table_strip_re rest"
    let ?segs = "before @ Viz ?body # after"
    have b: "?body \<noteq> []" "CHR '']'' \<notin> set ?body"
      using assms by simp_all
    have ok: "list_all tok_ok ?segs"
      using a b by simp
    from a have nv: "\<not> rx_test viz_strip_re rest" and nt: "\<not> rx_test table_strip_re rest"
      by simp_all
    have v: "rx_match viz_strip_re (p, u) = []" if "suffix u rest" for p u
      using that nv by (rule no_test_suffix(1))
    have t: "rx_match table_strip_re (p, u) = []" if "suffix u rest" for p u
      using that nt by (rule no_test_suffix(2))
    have "cleanText (render ?segs @ rest) = trim (plain_text ?segs @ rest)"
      using ok v t by (rule cleanText_segs)
    moreover have "render ?segs @ rest = render before @ ?tag @ render after @ rest"
      by simp
    ultimately show c: "content (parseAIResponse (render before @ ?tag @ render after @ rest) pd) =
        trim (plain_text before @ plain_text after @ rest)"
      unfolding parse_fields by simp
    have "rx_match viz_strip_re (p, u) = []" if "suffix u (plain_text ?segs @ rest)" for p u
      using ok v t that by (rule plain_rest_no_match(1))
    then have "\<not> sublist (''[VIZ:'' @ ?body @ '']'') (trim (plain_text ?segs @ rest))"
      using b by (intro token_absent(1))
    then show "\<not> sublist ?tag
        (content (parseAIResponse (render before @ ?tag @ render after @ rest) pd))"
      unfolding c by simp
  }
  {
    assume "no_assembly s"
    moreover have "?body \<noteq> []" "CHR '']'' \<notin> set ?body"
      using assms by simp_all
    ultimately have "\<not> sublist (''[VIZ:'' @ ?body @ '']'') (cleanText s)"
      by (rule no_assembly_absent(1))
    then show "\<not> sublist ?tag (content (parseAIResponse s pd))"
      unfolding parse_fields by simp
  }
qed

theorem viz_directive_extracted_witness:
  "the (visualizations
      (parseAIResponse ''A [VIZ:line:X:Y] B [VIZ:bar:Sample:Demo] C [VIZ:q'' None)) ! 1 =
     \<lparr>viz_type = ''chart'', viz_chartType = ''bar'', viz_title = ''Sample'',
      viz_description = ''Demo'', viz_data = generateVisualizationData ''bar'' None,
      viz_config = generateVisualizationConfig ''bar''\<rparr> \<and>
   visualizations (parseAIResponse ''A [VIZ:line:X:Y] B [VIZ:bar:Sample:Demo] see [1]'' None) =
     Some [\<lparr>viz_type = ''chart'', viz_chartType = ''line'', viz_title = ''X'',
             viz_description = ''Y'', viz_data = generateVisualizationData ''line'' None,
             viz_config = generateVisualizationConfig ''line''\<rparr>,
           \<lparr>viz_type = ''chart'', viz_chartType = ''bar'', viz_title = ''Sample'',
             viz_description = ''Demo'', viz_data = generateVisualizationData ''bar'' None,
             viz_config = generateVisualizationConfig ''bar''\<rparr>] \<and>
   content (parseAIResponse ''A [VIZ:line:X:Y] B [VIZ:bar:Sample:Demo] see [1]'' None) =
     ''A  B  see [1]'' \<and>
   \<not> sublist ''[VIZ:bar:Sample:Demo]''
     (content (parseAIResponse ''A [VIZ:line:X:Y] B [VIZ:bar:Sample:Demo] see [1]'' None)) \<and>
   \<not> sublist ''[VIZ:bar:Sample:Demo]''
     (content (parseAIResponse ''[VIZ:] [TABLE:x [VIZ:bar:Sample:Demo] y]'' None))"
proof -
  let ?before = "[Plain ''A '', Viz ''line:X:Y'', Plain '' B '']"
  let ?after = "[Plain '' see [1]'']"
  have td: "''Sample'' \<noteq> []" "''Demo'' \<noteq> []" "CHR '':'' \<notin> set ''Sample''"
    "CHR '']'' \<notin> set ''Sample''" "CHR '':'' \<notin> set ''Demo''" "CHR '']'' \<notin> set ''Demo''"
    by simp_all
  note inst = viz_directive_extracted [where T = "''Sample''" and D = "''Demo''" and pd = None
      and pairs = "[(''A '', ''line:X:Y'')]" and gap = "'' B ''" and post = "'' C [VIZ:q''"
      and before = ?before and after = ?after and rest = "[]"
      and s = "''[VIZ:] [TABLE:x [VIZ:bar:Sample:Demo] y]''", OF td]
  have line: "viz_of_match None ''[VIZ:line:X:Y]'' =
      [\<lparr>viz_type = ''chart'', viz_chartType = ''line'', viz_title = ''X'',
        viz_description = ''Y'', viz_data = generateVisualizationData ''line'' None,
        viz_config = generateVisualizationConfig ''line''\<rparr>]"
    using viz_of_match_fields [of "''line''" "''X''" "''Y''" None] by simp
  have n: "\<not> sublist ''[VIZ:'' ''A ''" "\<not> sublist ''[VIZ:'' '' B ''"
    by (auto dest: set_mono_sublist)
  have gaps: "list_all gap_ok [(''A '', ''line:X:Y'')] \<and> \<not> sublist ''[VIZ:'' '' B ''"
    using n by (simp add: gap_ok_def viz_shape_def)
  have wf: "list_all wf_seg ?before \<and> list_all wf_seg ?after \<and>
      CHR '']'' \<notin> set (dropWhile (\<lambda>c. c \<noteq> CHR '':'') [])"
    by (simp add: plain_def viz_shape_def table_shape_def)
  have ok: "list_all tok_ok ?before \<and> list_all tok_ok ?after \<and>
      \<not> rx_test viz_strip_re [] \<and> \<not> rx_test table_strip_re []"
    by (simp add: plain_def rx_test_def viz_strip_re_def table_strip_re_def)
  from inst [THEN conjunct1, THEN mp, OF gaps] obtain others where
    "visualizations (parseAIResponse ''A [VIZ:line:X:Y] B [VIZ:bar:Sample:Demo] C [VIZ:q'' None) =
     Some (\<lparr>viz_type = ''chart'', viz_chartType = ''line'', viz_title = ''X'',
        viz_description = ''Y'', viz_data = generateVisualizationData ''line'' None,
        viz_config = generateVisualizationConfig ''line''\<rparr> #
      \<lparr>viz_type = ''chart'', viz_chartType = ''bar'', viz_title = ''Sample'',
      viz_description = ''Demo'', viz_data = generateVisualizationData ''bar'' None,
      viz_config = generateVisualizationConfig ''bar''\<rparr> # others)"
    using line by auto
  then have 1: "the (visualizations
      (parseAIResponse ''A [VIZ:line:X:Y] B [VIZ:bar:Sample:Demo] C [VIZ:q'' None)) ! 1 =
     \<lparr>viz_type = ''chart'', viz_chartType = ''bar'', viz_title = ''Sample'',
      viz_description = ''Demo'', viz_data = generateVisualizationData ''bar'' None,
      viz_config = generateVisualizationConfig ''bar''\<rparr>"
    by simp
  have 2: "visualizations
      (parseAIResponse ''A [VIZ:line:X:Y] B [VIZ:bar:Sample:Demo] see [1]'' None) =
     Some [\<lparr>viz_type = ''chart'', viz_chartType = ''line'', viz_title = ''X'',
             viz_description = ''Y'', viz_data = generateVisualizationData ''line'' None,
             viz_config = generateVisualizationConfig ''line''\<rparr>,
           \<lparr>viz_type = ''chart'', viz_chartType = ''bar'', viz_title = ''Sample'',
             viz_description = ''Demo'', viz_data = generateVisualizationData ''bar'' None,
             viz_config = generateVisualizationConfig ''bar''\<rparr>]"
    using inst [THEN conjunct2, THEN conjunct1, THEN mp, OF wf] line
    by (simp add: render_def)
  have 3: "content (parseAIResponse ''A [VIZ:line:X:Y] B [VIZ:bar:Sample:Demo] see [1]'' None) =
     ''A  B  see [1]''"
    using inst [THEN conjunct2, THEN conjunct2, THEN conjunct1, THEN mp, OF ok, THEN conjunct1]
    by (simp add: render_def trim_def is_space_def)
  have 4: "\<not> sublist ''[VIZ:bar:Sample:Demo]''
     (content (parseAIResponse ''A [VIZ:line:X:Y] B [VIZ:bar:Sample:Demo] see [1]'' None))"
    using inst [THEN conjunct2, THEN conjunct2, THEN conjunct1, THEN mp, OF ok, THEN conjunct2]
    by (simp add: render_def)
  have na: "no_assembly ''[VIZ:] [TABLE:x [VIZ:bar:Sample:Demo] y]''"
    by (simp add: no_assembly_def remove_all_def viz_strip_re_def table_strip_re_def)
  have 5: "\<not> sublist ''[VIZ:bar:Sample:Demo]''
     (content (parseAIResponse ''[VIZ:] [TABLE:x [VIZ:bar:Sample:Demo] y]'' None))"
    using inst [THEN conjunct2, THEN conjunct2, THEN conjunct2, THEN mp, OF na]
    by simp
  from 1 2 3 4 5 show ?thesis
    by (simp only: simp_thms)
qed

text \<open>
  C3 as stated fails in three ways. After an earlier opener the directive
  \<^verbatim>\<open>[VIZ:bar:T:D]\<close> is read as a part of a longer match with other fields; a directive
  that the cleaning assembles from the text around a removed one stays in the displayed
  text; and with an empty title nothing is extracted.
\<close>

theorem viz_directive_extracted_counterexample:
  "sublist ''[VIZ:bar:T:D]'' ''[VIZ:x [VIZ:bar:T:D]'' \<and>
   map (\<lambda>v. (viz_chartType v, viz_title v, viz_description v))
     (shown_visualizations (parseAIResponse ''[VIZ:x [VIZ:bar:T:D]'' None)) =
     [(''x [VIZ'', ''bar'', ''T'')] \<and>
   sublist ''[VIZ:bar:T:D]'' ''[VIZ:bar:T:D][VI[VIZ:x]Z:bar:T:D]'' \<and>
   content (parseAIResponse ''[VIZ:bar:T:D][VI[VIZ:x]Z:bar:T:D]'' None) = ''[VIZ:bar:T:D]'' \<and>
   shown_visualizations (parseAIResponse ''[VIZ:bar::D]'' None) = []"
proof -
  have "''[VIZ:x [VIZ:bar:T:D]'' = ''[VIZ:x '' @ ''[VIZ:bar:T:D]'' @ []"
    by simp
  then have 1: "sublist ''[VIZ:bar:T:D]'' ''[VIZ:x [VIZ:bar:T:D]''"
    unfolding sublist_def by blast
  have "''[VIZ:bar:T:D][VI[VIZ:x]Z:bar:T:D]'' = [] @ ''[VIZ:bar:T:D]'' @ ''[VI[VIZ:x]Z:bar:T:D]''"
    by simp
  then have 2: "sublist ''[VIZ:bar:T:D]'' ''[VIZ:bar:T:D][VI[VIZ:x]Z:bar:T:D]''"
    unfolding sublist_def by blast
  have 3: "map (\<lambda>v. (viz_chartType v, viz_title v, viz_description v))
     (shown_visualizations (parseAIResponse ''[VIZ:x [VIZ:bar:T:D]'' None)) =
     [(''x [VIZ'', ''bar'', ''T'')]"
    by (simp add: parse_eval shown_visualizations_def)
  have 4: "content (parseAIResponse ''[VIZ:bar:T:D][VI[VIZ:x]Z:bar:T:D]'' None) = ''[VIZ:bar:T:D]''"
    by (simp add: parse_eval)
  have 5: "shown_visualizations (parseAIResponse ''[VIZ:bar::D]'' None) = []"
    by (simp add: parse_eval shown_visualizations_def)
  from 1 2 3 4 5 show ?thesis by blast
qed

subsection \<open>A malformed directive\<close>

text \<open>
  C1, amended.

  A tag that is never closed. A tail without a closing bracket, after any text, adds no
  visualization and no table to those of the text before it, and it stays in the
  displayed text, which is the cleaned text before the tail and the tail, joined and
  trimmed: whatever stands in the tail, as the tag \<^verbatim>\<open>[VIZ:bar:T:D\<close> without its closing
  bracket, occurs in the displayed text.

  Let now the text begin with well-formed segments: plain text in which no opener of a
  directive begins, and directives of either kind. If a rest follows the segments that
  has no closing bracket after its first colon, so that an opener in it is never
  closed, the response holds exactly the visualizations and the tables of the
  directives in the segments, and its displayed text is the plain segments and the
  rest, joined and trimmed.

  A closed token that is not a directive. If a token \<^verbatim>\<open>[VIZ:body]\<close> or \<^verbatim>\<open>[TABLE:body]\<close>
  follows the segments whose body has not the shape of its kind, because a field is
  missing or empty (the body is not empty and has no bracket), and then a rest without a
  closing bracket after its first colon, the token yields no visualization and no
  table: the response holds exactly those of the directives in the segments. But the
  token is removed from the displayed text, which is the plain segments and the rest,
  joined and trimmed, and does not contain the token.

  In general, no closed token \<^verbatim>\<open>[VIZ:body]\<close> or \<^verbatim>\<open>[TABLE:body]\<close>, with a body that is not
  empty and has no closing bracket, occurs in the displayed text of a text whose
  cleaning assembles no opener: no match that a replacement removes stands after kept
  text that ends in the beginning of an opener.
\<close>

theorem malformed_directive:
  "(CHR '']'' \<notin> set rest \<longrightarrow>
      parseAIResponse (pre @ rest) pd =
        \<lparr>content = trim (remove_all table_strip_re (remove_all viz_strip_re pre) @ rest),
         visualizations = visualizations (parseAIResponse pre pd),
         tables = tables (parseAIResponse pre pd),
         confidence = 0.85,
         sources = (case pd of None \<Rightarrow> [] | Some p \<Rightarrow> [pf_type p])\<rparr> \<and>
      (sublist tag rest \<and> tag \<noteq> [] \<and> \<not> is_space (hd tag) \<and> \<not> is_space (last tag) \<longrightarrow>
         sublist tag (content (parseAIResponse (pre @ rest) pd)))) \<and>
   (list_all wf_seg segs \<and> CHR '']'' \<notin> set (dropWhile (\<lambda>c. c \<noteq> CHR '':'') rest) \<longrightarrow>
      parseAIResponse (render segs @ rest) pd =
        \<lparr>content = trim (plain_text segs @ rest),
         visualizations = Some (concat (map (viz_of_match pd) (viz_tags segs))),
         tables = Some (concat (map (table_of_match pd) (table_tags segs))),
         confidence = 0.85,
         sources = (case pd of None \<Rightarrow> [] | Some p \<Rightarrow> [pf_type p])\<rparr> \<and>
      (sublist tag (plain_text segs @ rest) \<and> tag \<noteq> [] \<and>
       \<not> is_space (hd tag) \<and> \<not> is_space (last tag) \<longrightarrow>
         sublist tag (content (parseAIResponse (render segs @ rest) pd)))) \<and>
   (list_all wf_seg segs \<and> malformed tok \<and>
    CHR '']'' \<notin> set (dropWhile (\<lambda>c. c \<noteq> CHR '':'') rest) \<longrightarrow>
      parseAIResponse (render segs @ seg_text tok @ rest) pd =
        \<lparr>content = trim (plain_text segs @ rest),
         visualizations = Some (concat (map (viz_of_match pd) (viz_tags segs))),
         tables = Some (concat (map (table_of_match pd) (table_tags segs))),
         confidence = 0.85,
         sources = (case pd of None \<Rightarrow> [] | Some p \<Rightarrow> [pf_type p])\<rparr> \<and>
      \<not> sublist (seg_text tok)
          (content (parseAIResponse (render segs @ seg_text tok @ rest) pd))) \<and>
   (no_assembly s \<and> body \<noteq> [] \<and> CHR '']'' \<notin> set body \<longrightarrow>
      \<not> sublist (''[VIZ:'' @ body @ '']'') (content (parseAIResponse s pd)) \<and>
      \<not> sublist (''[TABLE:'' @ body @ '']'') (content (parseAIResponse s pd)))"
proof (intro conjI impI)
  assume "CHR '']'' \<notin> set rest"
  then show response: "parseAIResponse (pre @ rest) pd =
        \<lparr>content = trim (remove_all table_strip_re (remove_all viz_strip_re pre) @ rest),
         visualizations = visualizations (parseAIResponse pre pd),
         tables = tables (parseAIResponse pre pd),
         confidence = 0.85,
         sources = (case pd of None \<Rightarrow> [] | Some p \<Rightarrow> [pf_type p])\<rparr>"
    by (rule parse_tail)
  assume "sublist tag rest \<and> tag \<noteq> [] \<and> \<not> is_space (hd tag) \<and> \<not> is_space (last tag)"
  then have "sublist tag (trim (remove_all table_strip_re (remove_all viz_strip_re pre) @ rest))"
    by (intro sublist_trim) (auto simp: sublist_append)
  then show "sublist tag (content (parseAIResponse (pre @ rest) pd))"
    unfolding response by simp
next
  assume a: "list_all wf_seg segs \<and> CHR '']'' \<notin> set (dropWhile (\<lambda>c. c \<noteq> CHR '':'') rest)"
  then have wf: "list_all wf_seg segs"
    and dead: "CHR '']'' \<notin> set (dropWhile (\<lambda>c. c \<noteq> CHR '':'') rest)"
    by simp_all
  have dv: "rx_match viz_re (p, u) = []" if "suffix u rest" for p u
    using dead that by (rule dead_rest(1))
  have dt: "rx_match table_re (p, u) = []" if "suffix u rest" for p u
    using dead that by (rule dead_rest(2))
  have "parseAIResponse (render segs @ render [] @ rest) pd =
        \<lparr>content = trim (plain_text segs @ plain_text [] @ rest),
         visualizations = Some (concat (map (viz_of_match pd) (viz_tags segs))),
         tables = Some (concat (map (table_of_match pd) (table_tags segs))),
         confidence = 0.85,
         sources = (case pd of None \<Rightarrow> [] | Some p \<Rightarrow> [pf_type p])\<rparr>"
    using wf
  proof (rule parse_segs)
    show "list_all tok_ok []" by simp
    show "rx_scan viz_re q (render [] @ rest) = map Keep (render [] @ rest)" for q
      using dv by (simp add: rx_scan_no_match)
    show "rx_scan table_re q (render [] @ rest) = map Keep (render [] @ rest)" for q
      using dt by (simp add: rx_scan_no_match)
    show "rx_match viz_strip_re (p, u) = []" if "suffix u rest" for p u
      using dead that by (rule dead_rest(3))
    show "rx_match table_strip_re (p, u) = []" if "suffix u rest" for p u
      using dead that by (rule dead_rest(4))
  qed
  then show response: "parseAIResponse (render segs @ rest) pd =
        \<lparr>content = trim (plain_text segs @ rest),
         visualizations = Some (concat (map (viz_of_match pd) (viz_tags segs))),
         tables = Some (concat (map (table_of_match pd) (table_tags segs))),
         confidence = 0.85,
         sources = (case pd of None \<Rightarrow> [] | Some p \<Rightarrow> [pf_type p])\<rparr>"
    by simp
  assume "sublist tag (plain_text segs @ rest) \<and> tag \<noteq> [] \<and>
       \<not> is_space (hd tag) \<and> \<not> is_space (last tag)"
  then have "sublist tag (trim (plain_text segs @ rest))"
    by (intro sublist_trim) simp_all
  then show "sublist tag (content (parseAIResponse (render segs @ rest) pd))"
    unfolding response by simp
next
  assume a: "list_all wf_seg segs \<and> malformed tok \<and>
    CHR '']'' \<notin> set (dropWhile (\<lambda>c. c \<noteq> CHR '':'') rest)"
  then have wf: "list_all wf_seg segs" and tok: "malformed tok"
    and dead: "CHR '']'' \<notin> set (dropWhile (\<lambda>c. c \<noteq> CHR '':'') rest)"
    by simp_all
  have v: "rx_match viz_strip_re (p, u) = []" if "suffix u rest" for p u
    using dead that by (rule dead_rest(3))
  have t: "rx_match table_strip_re (p, u) = []" if "suffix u rest" for p u
    using dead that by (rule dead_rest(4))
  have "parseAIResponse (render segs @ render [tok] @ rest) pd =
        \<lparr>content = trim (plain_text segs @ plain_text [tok] @ rest),
         visualizations = Some (concat (map (viz_of_match pd) (viz_tags segs))),
         tables = Some (concat (map (table_of_match pd) (table_tags segs))),
         confidence = 0.85,
         sources = (case pd of None \<Rightarrow> [] | Some p \<Rightarrow> [pf_type p])\<rparr>"
    using wf
  proof (rule parse_segs)
    show "list_all tok_ok [tok]"
      using tok by (simp add: malformed_tok_ok)
    show "rx_scan viz_re q (render [tok] @ rest) = map Keep (render [tok] @ rest)" for q
      using malformed_scan(1) [OF tok dead, of q] by simp
    show "rx_scan table_re q (render [tok] @ rest) = map Keep (render [tok] @ rest)" for q
      using malformed_scan(2) [OF tok dead, of q] by simp
    show "rx_match viz_strip_re (p, u) = []" if "suffix u rest" for p u
      using that by (rule v)
    show "rx_match table_strip_re (p, u) = []" if "suffix u rest" for p u
      using that by (rule t)
  qed
  moreover have "plain_text [tok] = []"
    using tok by (cases tok) simp_all
  ultimately show response: "parseAIResponse (render segs @ seg_text tok @ rest) pd =
        \<lparr>content = trim (plain_text segs @ rest),
         visualizations = Some (concat (map (viz_of_match pd) (viz_tags segs))),
         tables = Some (concat (map (table_of_match pd) (table_tags segs))),
         confidence = 0.85,
         sources = (case pd of None \<Rightarrow> [] | Some p \<Rightarrow> [pf_type p])\<rparr>"
    by simp
  have ok: "list_all tok_ok segs"
    using wf by (rule wf_segs_tok_ok)
  have "\<not> sublist (seg_text tok) (trim (plain_text segs @ rest))"
    using tok
  proof (rule malformed_absent)
    show "rx_match viz_strip_re (p, u) = []" if "suffix u (plain_text segs @ rest)" for p u
      using ok v t that by (rule plain_rest_no_match(1))
    show "rx_match table_strip_re (p, u) = []" if "suffix u (plain_text segs @ rest)" for p u
      using ok v t that by (rule plain_rest_no_match(2))
  qed
  then show "\<not> sublist (seg_text tok)
          (content (parseAIResponse (render segs @ seg_text tok @ rest) pd))"
    unfolding response by simp
next
  assume "no_assembly s \<and> body \<noteq> [] \<and> CHR '']'' \<notin> set body"
  then have a: "no_assembly s" "body \<noteq> []" "CHR '']'' \<notin> set body"
    by simp_all
  show "\<not> sublist (''[VIZ:'' @ body @ '']'') (content (parseAIResponse s pd))"
    unfolding parse_fields using a by (rule no_assembly_absent(1))
  show "\<not> sublist (''[TABLE:'' @ body @ '']'') (content (parseAIResponse s pd))"
    unfolding parse_fields using a by (rule no_assembly_absent(2))
qed

theorem malformed_directive_witness:
  "parseAIResponse ''Note] see [VIZ:a:b] [VIZ:bar:T:D'' None =
     \<lparr>content = ''Note] see  [VIZ:bar:T:D'', visualizations = Some [], tables = Some [],
      confidence = 0.85, sources = []\<rparr> \<and>
   sublist ''[VIZ:bar:T:D'' (content (parseAIResponse ''Note] see [VIZ:a:b] [VIZ:bar:T:D'' None)) \<and>
   parseAIResponse ''[VIZ:line:X:Y] See [1]. [VIZ:bar:T:D'' None =
     \<lparr>content = ''See [1]. [VIZ:bar:T:D'',
      visualizations = Some [\<lparr>viz_type = ''chart'', viz_chartType = ''line'', viz_title = ''X'',
         viz_description = ''Y'', viz_data = generateVisualizationData ''line'' None,
         viz_config = generateVisualizationConfig ''line''\<rparr>],
      tables = Some [], confidence = 0.85, sources = []\<rparr> \<and>
   sublist ''[VIZ:bar:T:D'' (content (parseAIResponse ''[VIZ:line:X:Y] See [1]. [VIZ:bar:T:D'' None)) \<and>
   parseAIResponse ''Here: [VIZ:a:b] ok: fine'' None =
     \<lparr>content = ''Here:  ok: fine'', visualizations = Some [], tables = Some [],
      confidence = 0.85, sources = []\<rparr> \<and>
   \<not> sublist ''[VIZ:a:b]'' (content (parseAIResponse ''Here: [VIZ:a:b] ok: fine'' None)) \<and>
   parseAIResponse ''x [TABLE:a] y'' None =
     \<lparr>content = ''x  y'', visualizations = Some [], tables = Some [],
      confidence = 0.85, sources = []\<rparr> \<and>
   \<not> sublist ''[TABLE:a]'' (content (parseAIResponse ''x [TABLE:a] y'' None)) \<and>
   parseAIResponse ''Chart [VIZ:bar::D]'' None =
     \<lparr>content = ''Chart'', visualizations = Some [], tables = Some [],
      confidence = 0.85, sources = []\<rparr> \<and>
   \<not> sublist ''[VIZ:bar::D]'' (content (parseAIResponse ''Chart [VIZ:bar::D]'' None)) \<and>
   \<not> sublist ''[VIZ:a]'' (content (parseAIResponse ''[VIZ:] [TABLE: [VIZ:a] and [TABLE:a]'' None)) \<and>
   \<not> sublist ''[TABLE:a]'' (content (parseAIResponse ''[VIZ:] [TABLE: [VIZ:a] and [TABLE:a]'' None))"
proof -
  let ?segs = "[Viz ''line:X:Y'', Plain '' See [1]. '']"
  have line: "viz_of_match None ''[VIZ:line:X:Y]'' =
      [\<lparr>viz_type = ''chart'', viz_chartType = ''line'', viz_title = ''X'',
        viz_description = ''Y'', viz_data = generateVisualizationData ''line'' None,
        viz_config = generateVisualizationConfig ''line''\<rparr>]"
    using viz_of_match_fields [of "''line''" "''X''" "''Y''" None] by simp
  have a: "list_all wf_seg ?segs \<and>
      CHR '']'' \<notin> set (dropWhile (\<lambda>c. c \<noteq> CHR '':'') ''[VIZ:bar:T:D'')"
    by (simp add: plain_def viz_shape_def table_shape_def)
  have "sublist ''[VIZ:bar:T:D'' ('' See [1]. '' @ ''[VIZ:bar:T:D'' @ [])"
    by (rule sublist_appendI)
  then have sub: "sublist ''[VIZ:bar:T:D'' (plain_text ?segs @ ''[VIZ:bar:T:D'') \<and>
      ''[VIZ:bar:T:D'' \<noteq> [] \<and> \<not> is_space (hd ''[VIZ:bar:T:D'') \<and>
      \<not> is_space (last ''[VIZ:bar:T:D'')"
    by (simp add: is_space_def)
  note unclosed = malformed_directive [where segs = ?segs and rest = "''[VIZ:bar:T:D''"
      and pd = None and tag = "''[VIZ:bar:T:D''", THEN conjunct2, THEN conjunct1, THEN mp, OF a]
  have 1: "parseAIResponse ''[VIZ:line:X:Y] See [1]. [VIZ:bar:T:D'' None =
     \<lparr>content = ''See [1]. [VIZ:bar:T:D'',
      visualizations = Some [\<lparr>viz_type = ''chart'', viz_chartType = ''line'', viz_title = ''X'',
         viz_description = ''Y'', viz_data = generateVisualizationData ''line'' None,
         viz_config = generateVisualizationConfig ''line''\<rparr>],
      tables = Some [], confidence = 0.85, sources = []\<rparr>"
    using unclosed [THEN conjunct1] line
    by (simp add: render_def trim_def is_space_def)
  have 2: "sublist ''[VIZ:bar:T:D''
      (content (parseAIResponse ''[VIZ:line:X:Y] See [1]. [VIZ:bar:T:D'' None))"
    using unclosed [THEN conjunct2, THEN mp, OF sub]
    by (simp add: render_def)
  have b: "list_all wf_seg [Plain ''Here: ''] \<and> malformed (Viz ''a:b'') \<and>
      CHR '']'' \<notin> set (dropWhile (\<lambda>c. c \<noteq> CHR '':'') '' ok: fine'')"
    by (simp add: plain_def viz_shape_def)
  note viz = malformed_directive [where segs = "[Plain ''Here: '']" and rest = "'' ok: fine''"
      and pd = None and tok = "Viz ''a:b''", THEN conjunct2, THEN conjunct2, THEN conjunct1, THEN mp, OF b]
  have 3: "parseAIResponse ''Here: [VIZ:a:b] ok: fine'' None =
     \<lparr>content = ''Here:  ok: fine'', visualizations = Some [], tables = Some [],
      confidence = 0.85, sources = []\<rparr>"
    using viz [THEN conjunct1]
    by (simp add: render_def trim_def is_space_def)
  have 4: "\<not> sublist ''[VIZ:a:b]'' (content (parseAIResponse ''Here: [VIZ:a:b] ok: fine'' None))"
    using viz [THEN conjunct2]
    by (simp add: render_def)
  have c: "list_all wf_seg [Plain ''x ''] \<and> malformed (Table ''a'') \<and>
      CHR '']'' \<notin> set (dropWhile (\<lambda>c. c \<noteq> CHR '':'') '' y'')"
    by (simp add: plain_def table_shape_def)
  note tab = malformed_directive [where segs = "[Plain ''x '']" and rest = "'' y''"
      and pd = None and tok = "Table ''a''", THEN conjunct2, THEN conjunct2, THEN conjunct1, THEN mp, OF c]
  have 5: "parseAIResponse ''x [TABLE:a] y'' None =
     \<lparr>content = ''x  y'', visualizations = Some [], tables = Some [],
      confidence = 0.85, sources = []\<rparr>"
    using tab [THEN conjunct1]
    by (simp add: render_def trim_def is_space_def)
  have 6: "\<not> sublist ''[TABLE:a]'' (content (parseAIResponse ''x [TABLE:a] y'' None))"
    using tab [THEN conjunct2]
    by (simp add: render_def)
  have d: "list_all wf_seg [Plain ''Chart ''] \<and> malformed (Viz ''bar::D'') \<and>
      CHR '']'' \<notin> set (dropWhile (\<lambda>c. c \<noteq> CHR '':'') [])"
    by (simp add: plain_def viz_shape_def)
  note empty = malformed_directive [where segs = "[Plain ''Chart '']" and rest = "[]"
      and pd = None and tok = "Viz ''bar::D''", THEN conjunct2, THEN conjunct2, THEN conjunct1, THEN mp, OF d]
  have 7: "parseAIResponse ''Chart [VIZ:bar::D]'' None =
     \<lparr>content = ''Chart'', visualizations = Some [], tables = Some [],
      confidence = 0.85, sources = []\<rparr>"
    using empty [THEN conjunct1]
    by (simp add: render_def trim_def is_space_def)
  have 8: "\<not> sublist ''[VIZ:bar::D]'' (content (parseAIResponse ''Chart [VIZ:bar::D]'' None))"
    using empty [THEN conjunct2]
    by (simp add: render_def)
  have e: "no_assembly ''[VIZ:] [TABLE: [VIZ:a] and [TABLE:a]'' \<and> ''a'' \<noteq> [] \<and>
      CHR '']'' \<notin> set ''a''"
    by (simp add: no_assembly_def remove_all_def viz_strip_re_def table_strip_re_def)
  note closed = malformed_directive [where s = "''[VIZ:] [TABLE: [VIZ:a] and [TABLE:a]''"
      and body = "''a''" and pd = None, THEN conjunct2, THEN conjunct2, THEN conjunct2, THEN mp, OF e]
  have 9: "\<not> sublist ''[VIZ:a]''
      (content (parseAIResponse ''[VIZ:] [TABLE: [VIZ:a] and [TABLE:a]'' None))"
    using closed [THEN conjunct1] by simp
  have 10: "\<not> sublist ''[TABLE:a]''
      (content (parseAIResponse ''[VIZ:] [TABLE: [VIZ:a] and [TABLE:a]'' None))"
    using closed [THEN conjunct2] by simp
  have f: "CHR '']'' \<notin> set ''[VIZ:bar:T:D''"
    by simp
  note tail = malformed_directive [where pre = "''Note] see [VIZ:a:b] ''"
      and rest = "''[VIZ:bar:T:D''" and pd = None and tag = "''[VIZ:bar:T:D''",
      THEN conjunct1, THEN mp, OF f]
  have g: "visualizations (parseAIResponse ''Note] see [VIZ:a:b] '' None) = Some []"
    "tables (parseAIResponse ''Note] see [VIZ:a:b] '' None) = Some []"
    "trim (remove_all table_strip_re (remove_all viz_strip_re ''Note] see [VIZ:a:b] '') @
       ''[VIZ:bar:T:D'') = ''Note] see  [VIZ:bar:T:D''"
    by (simp_all add: parse_eval)
  have 11: "parseAIResponse ''Note] see [VIZ:a:b] [VIZ:bar:T:D'' None =
     \<lparr>content = ''Note] see  [VIZ:bar:T:D'', visualizations = Some [], tables = Some [],
      confidence = 0.85, sources = []\<rparr>"
    using tail [THEN conjunct1] unfolding g by simp
  have "sublist ''[VIZ:bar:T:D'' ([] @ ''[VIZ:bar:T:D'' @ [])"
    by (rule sublist_appendI)
  then have h: "sublist ''[VIZ:bar:T:D'' ''[VIZ:bar:T:D'' \<and> ''[VIZ:bar:T:D'' \<noteq> [] \<and>
      \<not> is_space (hd ''[VIZ:bar:T:D'') \<and> \<not> is_space (last ''[VIZ:bar:T:D'')"
    by (simp add: is_space_def)
  have 12: "sublist ''[VIZ:bar:T:D''
      (content (parseAIResponse ''Note] see [VIZ:a:b] [VIZ:bar:T:D'' None))"
    using tail [THEN conjunct2, THEN mp, OF h] by simp
  from 11 12 1 2 3 4 5 6 7 8 9 10 show ?thesis
    by (simp only: simp_thms)
qed

text \<open>
  C1 as stated fails: the token \<^verbatim>\<open>[VIZ:a:b]\<close> yields no visualization, and the
  displayed text does not contain it.
\<close>

theorem malformed_directive_counterexample:
  "parseAIResponse ''[VIZ:a:b]'' None =
     \<lparr>content = [], visualizations = Some [], tables = Some [], confidence = 0.85, sources = []\<rparr> \<and>
   \<not> sublist ''[VIZ:a:b]'' (content (parseAIResponse ''[VIZ:a:b]'' None))"
  by (simp add: parse_eval)

subsection \<open>Cleaning a text twice\<close>

text \<open>
  C4, amended. Applying \<open>cleanText\<close> a second time changes nothing on every text whose
  cleaning assembles no opener: no match that a replacement removes stands after kept
  text that ends in the beginning of an opener.

  In particular, let the text consist of segments (plain text in which no opener of a
  directive begins, closed tokens \<^verbatim>\<open>[VIZ:...]\<close> and \<^verbatim>\<open>[TABLE:...]\<close>, any number of them) and
  of a tail in which neither cleaning pattern has a match. Then \<open>cleanText\<close> leaves the
  plain segments and the tail, joined and trimmed, and applying \<open>cleanText\<close> a second
  time changes nothing.
\<close>

theorem cleanText_idempotent:
  "(no_assembly s \<longrightarrow> cleanText (cleanText s) = cleanText s) \<and>
   (list_all tok_ok segs \<and> \<not> rx_test viz_strip_re rest \<and> \<not> rx_test table_strip_re rest \<longrightarrow>
      cleanText (render segs @ rest) = trim (plain_text segs @ rest) \<and>
      cleanText (cleanText (render segs @ rest)) = cleanText (render segs @ rest))"
proof (intro conjI impI)
  assume "no_assembly s"
  then show "cleanText (cleanText s) = cleanText s"
    by (rule no_assembly_idem)
next
  assume a: "list_all tok_ok segs \<and> \<not> rx_test viz_strip_re rest \<and> \<not> rx_test table_strip_re rest"
  then have ok: "list_all tok_ok segs"
    and nv: "\<not> rx_test viz_strip_re rest" and nt: "\<not> rx_test table_strip_re rest"
    by simp_all
  have v: "rx_match viz_strip_re (p, u) = []" if "suffix u rest" for p u
    using that nv by (rule no_test_suffix)
  have t: "rx_match table_strip_re (p, u) = []" if "suffix u rest" for p u
    using that nt by (rule no_test_suffix)
  show c: "cleanText (render segs @ rest) = trim (plain_text segs @ rest)"
    using ok v t by (rule cleanText_segs)
  have "cleanText (trim (plain_text segs @ rest)) = trim (plain_text segs @ rest)"
    using plain_rest_no_match [OF ok v t] by (intro cleanText_trim_no_match)
  then show "cleanText (cleanText (render segs @ rest)) = cleanText (render segs @ rest)"
    unfolding c .
qed

theorem cleanText_idempotent_witness:
  "cleanText (cleanText ''See [VIZ:] and [TABLE:x [VIZ:a:b:c] y] end'') =
     cleanText ''See [VIZ:] and [TABLE:x [VIZ:a:b:c] y] end'' \<and>
   cleanText '' A [VIZ:bar:T:D] see [1] [TABLE:x:y] C [VIZ:q][VIZ:] [VIZ:r'' =
     ''A  see [1]  C [VIZ:] [VIZ:r'' \<and>
   cleanText (cleanText '' A [VIZ:bar:T:D] see [1] [TABLE:x:y] C [VIZ:q][VIZ:] [VIZ:r'') =
     cleanText '' A [VIZ:bar:T:D] see [1] [TABLE:x:y] C [VIZ:q][VIZ:] [VIZ:r''"
proof -
  let ?segs = "[Plain '' A '', Viz ''bar:T:D'', Plain '' see [1] '', Table ''x:y'',
      Plain '' C '', Viz ''q'']"
  have 0: "no_assembly ''See [VIZ:] and [TABLE:x [VIZ:a:b:c] y] end''"
    by (simp add: no_assembly_def remove_all_def viz_strip_re_def table_strip_re_def)
  have 1: "list_all tok_ok ?segs \<and> \<not> rx_test viz_strip_re ''[VIZ:] [VIZ:r'' \<and>
      \<not> rx_test table_strip_re ''[VIZ:] [VIZ:r''"
    by (simp add: plain_def rx_test_def viz_strip_re_def table_strip_re_def)
  have 3: "render ?segs @ ''[VIZ:] [VIZ:r'' =
      '' A [VIZ:bar:T:D] see [1] [TABLE:x:y] C [VIZ:q][VIZ:] [VIZ:r''"
    by (simp add: render_def)
  have 4: "trim (plain_text ?segs @ ''[VIZ:] [VIZ:r'') = ''A  see [1]  C [VIZ:] [VIZ:r''"
    by (simp add: trim_def is_space_def)
  note inst = cleanText_idempotent [where s = "''See [VIZ:] and [TABLE:x [VIZ:a:b:c] y] end''"
      and segs = ?segs and rest = "''[VIZ:] [VIZ:r''"]
  from inst [THEN conjunct1, THEN mp, OF 0] inst [THEN conjunct2, THEN mp, OF 1]
  show ?thesis
    unfolding 3 4 by (rule conjI)
qed

text \<open>
  C4 as stated fails: removing \<^verbatim>\<open>[VIZ:x]\<close> from \<^verbatim>\<open>[VI[VIZ:x]Z:a]\<close> joins the text
  around it into the directive \<^verbatim>\<open>[VIZ:a]\<close>, which a second pass removes.
\<close>

theorem cleanText_idempotent_counterexample:
  "cleanText ''[VI[VIZ:x]Z:a]'' = ''[VIZ:a]'' \<and> cleanText (cleanText ''[VI[VIZ:x]Z:a]'') = []"
  by (simp add: cleanText_def remove_all_def viz_strip_re_def table_strip_re_def trim_def
      is_space_def)

end
